theory Spec2Isabelle
  imports Main
begin

section \<open>The racing game of ipcgame.c\<close>

text \<open>
  The program forks one watchdog process and \<open>MAXCLIENTS\<close> client processes. Each
  process is sequential C code; it is embedded as a function from what its system calls
  return (the environment) to the values of its variables and to the list of system calls
  and shared-memory accesses it performs, in program order.

  C's \<open>int\<close> is modelled by \<open>int\<close>: the scores and \<open>runs_done\<close> stay between 0 and
  \<open>MAXRUNS\<close> in every run (\<open>runs_done_counts\<close> below), far from the limits of a
  machine integer. The segment is taken to be attached in every process. A signal can end
  a client at any moment; the functions below give what a client does until then, up to
  the end of its code.
\<close>

subsection \<open>Constants\<close>

definition MAXCLIENTS :: nat where
  "MAXCLIENTS = 12"

definition MSGNR :: nat where
  "MSGNR = 100"

definition LOCK :: int where
  "LOCK = - 1"

definition UNLOCK :: int where
  "UNLOCK = 1"

definition MAXRUNS :: int where
  "MAXRUNS = int (MSGNR * MAXCLIENTS)"

definition EXIT_SUCCESS :: int where
  "EXIT_SUCCESS = 0"

definition EXIT_FAILURE :: int where
  "EXIT_FAILURE = 1"

subsection \<open>Shared memory and observable actions\<close>

text \<open>The struct \<open>game\<close> that lives in the shared-memory segment \<open>SMgame\<close>.\<close>

record game =
  frontrunner :: int
  runs_done :: int
  clientpids :: "int list"

datatype shm_field = Frontrunner | Runs_done | Clientpids nat

text \<open>The arguments of \<open>perror\<close> and the lines written by \<open>printf\<close>.\<close>

datatype errmsg =
    Err_semop
  | Err_msgrcv
  | Err_sscanf
  | Err_msgsnd nat
  | Err_sigaction nat

datatype line =
    Watchdog_starting nat
  | First_to_get_to int int
  | Watchdog_finished int
  | Client_starting nat nat
  | Client_finished nat

text \<open>
  One entry per system call or shared-memory access. \<open>Semop op ok\<close> is a call of
  \<open>semop\<close> with \<open>sem_op = op\<close> that succeeded (\<open>ok\<close>) or returned a negative value;
  \<open>Msgsnd nr ok\<close> is a \<open>msgsnd\<close> of the message whose data is the decimal \<open>nr\<close>.
\<close>

datatype action =
    Semop int bool
  | Shm_read shm_field
  | Shm_write shm_field int
  | Msgrcv bool
  | Msgsnd nat bool
  | Perror errmsg
  | Printf line
  | Kill int
  | Usleep nat
  | Exit int

text \<open>The effect of a trace on the shared segment: only writes change it.\<close>

fun shm_effect :: "game \<Rightarrow> action \<Rightarrow> game" where
  "shm_effect g (Shm_write Frontrunner x) = g\<lparr>frontrunner := x\<rparr>"
| "shm_effect g (Shm_write Runs_done x) = g\<lparr>runs_done := x\<rparr>"
| "shm_effect g (Shm_write (Clientpids i) x) = g\<lparr>clientpids := (clientpids g)[i := x]\<rparr>"
| "shm_effect g _ = g"

definition shm_after :: "action list \<Rightarrow> game \<Rightarrow> game" where
  "shm_after t g = foldl shm_effect g t"

text \<open>
  Lock discipline of one process. The flag says whether the process holds \<open>SEMaccess\<close>:
  a successful \<open>LOCK\<close> acquires it, a successful \<open>UNLOCK\<close> gives it back, a failed
  \<open>semop\<close> changes nothing. \<open>guarded need held t\<close> holds when every action of \<open>t\<close>
  selected by \<open>need\<close> happens while the semaphore is held.
\<close>

fun is_shm_write :: "action \<Rightarrow> bool" where
  "is_shm_write (Shm_write f x) = True"
| "is_shm_write _ = False"

fun is_shm_access :: "action \<Rightarrow> bool" where
  "is_shm_access (Shm_write f x) = True"
| "is_shm_access (Shm_read f) = True"
| "is_shm_access _ = False"

fun holds_after :: "bool \<Rightarrow> action \<Rightarrow> bool" where
  "holds_after held (Semop op ok) = (if ok then op = LOCK else held)"
| "holds_after held _ = held"

fun guarded :: "(action \<Rightarrow> bool) \<Rightarrow> bool \<Rightarrow> action list \<Rightarrow> bool" where
  "guarded need held [] = True"
| "guarded need held (a # t) = ((need a \<longrightarrow> held) \<and> guarded need (holds_after held a) t)"

subsection \<open>\<open>sem_operation\<close>\<close>

text \<open>
  \<open>semop_ok\<close> says whether \<open>semop\<close> returned a non-negative value. The result is the
  value handed back to the caller and the calls made.
\<close>

definition sem_operation :: "int \<Rightarrow> bool \<Rightarrow> int \<times> action list" where
  "sem_operation op semop_ok =
     (if \<not> semop_ok then (- 1, [Semop op False, Perror Err_semop])
      else (1, [Semop op True]))"

subsection \<open>\<open>random_sleep\<close>\<close>

text \<open>
  The C library's generator is a parameter: \<open>srand seed\<close> is the generator state after
  seeding, \<open>rand st\<close> the next number and the next state. \<open>random_sleep\<close> takes the
  state it finds and the pid of the caller, and gives the microseconds slept and the
  state it leaves.
\<close>

definition random_sleep ::
  "(nat \<Rightarrow> 'g) \<Rightarrow> ('g \<Rightarrow> nat \<times> 'g) \<Rightarrow> nat \<Rightarrow> 'g \<Rightarrow> nat \<times> 'g" where
  "random_sleep srand rand pid st =
     (let st1 = srand (pid mod 1234);
          (r, st2) = rand st1
      in (r mod 398, st2))"

subsection \<open>\<open>watchdog_code\<close>\<close>

text \<open>
  The result of \<open>sscanf(msg.data, "%d", &client_nr)\<close>: one conversion stored, a matching
  failure (returns 0, nothing stored) or an input failure before any conversion
  (returns \<open>EOF\<close>, nothing stored).
\<close>

datatype sscanf_result = Converted int | Matching_failure | Input_failure

fun sscanf_return :: "sscanf_result \<Rightarrow> int" where
  "sscanf_return (Converted x) = 1"
| "sscanf_return Matching_failure = 0"
| "sscanf_return Input_failure = - 1"

fun sscanf_store :: "sscanf_result \<Rightarrow> int \<Rightarrow> int" where
  "sscanf_store (Converted x) old = x"
| "sscanf_store Matching_failure old = old"
| "sscanf_store Input_failure old = old"

text \<open>
  How the C library's \<open>sscanf\<close> reads the data under the format \<open>"%d"\<close>: white space
  is skipped; when the data ends there, nothing can be read and this is an input failure;
  otherwise an optional sign and the decimal digits that follow are the input item, and an
  item without a digit is a matching failure.
\<close>

definition isspace :: "char \<Rightarrow> bool" where
  "isspace c \<longleftrightarrow> (of_char c :: nat) \<in> {32, 9, 10, 11, 12, 13}"

definition isdigit :: "char \<Rightarrow> bool" where
  "isdigit c \<longleftrightarrow> (48::nat) \<le> of_char c \<and> (of_char c :: nat) \<le> 57"

definition digits_value :: "string \<Rightarrow> int" where
  "digits_value ds = foldl (\<lambda>n c. 10 * n + (int (of_char c) - 48)) 0 ds"

definition sscanf_d :: "string \<Rightarrow> sscanf_result" where
  "sscanf_d data =
     (case dropWhile isspace data of
        [] \<Rightarrow> Input_failure
      | c # cs \<Rightarrow>
          let (sign, rest) =
                (if c = CHR ''-'' then (- 1, cs)
                 else if c = CHR ''+'' then (1, cs) else (1, c # cs));
              ds = takeWhile isdigit rest
          in if ds = [] then Matching_failure else Converted (sign * digits_value ds))"

text \<open>
  What the system calls of one loop iteration return: \<open>received = None\<close> when \<open>msgrcv\<close>
  fails, otherwise what \<open>sscanf\<close> makes of the data; and whether the two \<open>semop\<close>
  calls succeed.
\<close>

record wd_env =
  received :: "sscanf_result option"
  lock_ok :: bool
  unlock_ok :: bool

text \<open>The local variables of \<open>watchdog_code\<close> that live across iterations.\<close>

record watchdog_vars =
  scores :: "int list"
  wd_frontrunner :: int
  winner :: int
  client_nr :: int

text \<open>The scan \<open>for (i=0;i<MAXCLIENTS;i++)\<close> with \<open>frontrunner_score\<close> starting at 0.\<close>

definition scan_step :: "int list \<Rightarrow> int \<times> int \<Rightarrow> nat \<Rightarrow> int \<times> int" where
  "scan_step sc acc i =
     (case acc of (frontrunner_score, fr) \<Rightarrow>
        if sc ! i > frontrunner_score then (sc ! i, int i) else (frontrunner_score, fr))"

definition check_frontrunner :: "int list \<Rightarrow> int \<Rightarrow> int" where
  "check_frontrunner sc fr = snd (foldl (scan_step sc) (0, fr) [0..<MAXCLIENTS])"

text \<open>
  One pass through the body of the \<open>do\<close> loop. \<open>Rcv_error\<close>: \<open>msgrcv\<close> failed and the
  process exits. \<open>Out_of_bounds\<close>: \<open>scores[client_nr]\<close> lies outside the array, which C
  leaves undefined. \<open>Next\<close>: control reaches the loop condition, either through
  \<open>continue\<close> (nothing changed) or after the message was counted.
\<close>

datatype body_result =
    Rcv_error "action list"
  | Out_of_bounds "action list"
  | Next watchdog_vars game "action list"

definition watchdog_body :: "wd_env \<Rightarrow> watchdog_vars \<Rightarrow> game \<Rightarrow> body_result" where
  "watchdog_body e v g =
     (case received e of
        None \<Rightarrow> Rcv_error [Msgrcv False, Perror Err_msgrcv, Exit EXIT_FAILURE]
      | Some r \<Rightarrow>
          if sscanf_return r < 0 then Next v g [Msgrcv True, Perror Err_sscanf]
          else
            let cn = sscanf_store r (client_nr v) in
            if cn < 0 \<or> int MAXCLIENTS \<le> cn then Out_of_bounds [Msgrcv True]
            else
              let sc = (scores v)[nat cn := scores v ! nat cn + 1];
                  fr = check_frontrunner sc (wd_frontrunner v);
                  milestone =
                    (if sc ! nat fr mod 5 = 0 \<and> cn = fr
                     then [Printf (First_to_get_to cn (sc ! nat cn))] else []);
                  w = (if sc ! nat fr = int MSGNR \<and> cn = fr then fr else winner v);
                  (r1, t1) = sem_operation LOCK (lock_ok e);
                  g1 = g\<lparr>frontrunner := fr\<rparr>;
                  g2 = g1\<lparr>runs_done := runs_done g1 + 1\<rparr>;
                  (r2, t2) = sem_operation UNLOCK (unlock_ok e)
              in Next \<lparr>scores = sc, wd_frontrunner = fr, winner = w, client_nr = cn\<rparr> g2
                   ([Msgrcv True] @ milestone @ t1 @
                    [Shm_write Frontrunner fr, Shm_read Runs_done,
                     Shm_write Runs_done (runs_done g1 + 1)] @ t2))"

text \<open>
  The condition \<open>winner == -1 && watchdog_client->runs_done < MAXRUNS\<close>; the right
  operand, a read of the shared segment, is evaluated only when the left one holds.
\<close>

definition loop_condition :: "watchdog_vars \<Rightarrow> game \<Rightarrow> bool" where
  "loop_condition v g \<longleftrightarrow> winner v = - 1 \<and> runs_done g < MAXRUNS"

definition loop_condition_trace :: "watchdog_vars \<Rightarrow> action list" where
  "loop_condition_trace v = (if winner v = - 1 then [Shm_read Runs_done] else [])"

text \<open>
  How the loop is left: through its condition, by \<open>exit(EXIT_FAILURE)\<close> after a failed
  \<open>msgrcv\<close>, not at all because \<open>msgrcv\<close> blocks on an empty queue (the environment
  list is used up), or by an access outside \<open>scores\<close>.
\<close>

datatype wd_exit = Loop_done | Exited_failure | Blocked_in_msgrcv | Undefined_behaviour

text \<open>
  The \<open>do ... while\<close> loop. The result is how it ends, the values of the variables and
  of the shared segment at the start and after each completed iteration, and the trace.
\<close>

fun watchdog_loop ::
  "wd_env list \<Rightarrow> watchdog_vars \<Rightarrow> game \<Rightarrow>
     wd_exit \<times> (watchdog_vars \<times> game) list \<times> action list" where
  "watchdog_loop [] v g = (Blocked_in_msgrcv, [(v, g)], [])"
| "watchdog_loop (e # es) v g =
     (case watchdog_body e v g of
        Rcv_error t \<Rightarrow> (Exited_failure, [(v, g)], t)
      | Out_of_bounds t \<Rightarrow> (Undefined_behaviour, [(v, g)], t)
      | Next v' g' t \<Rightarrow>
          if loop_condition v' g' then
            (case watchdog_loop es v' g' of
               (x, cs, t') \<Rightarrow> (x, (v, g) # cs, t @ loop_condition_trace v' @ t'))
          else (Loop_done, [(v, g), (v', g')], t @ loop_condition_trace v'))"

text \<open>The variables as declared: all scores 0, \<open>frontrunner=0\<close>, \<open>winner=-1\<close>;
  \<open>client_nr\<close> is not initialised, so its first value \<open>cn0\<close> is arbitrary.\<close>

definition watchdog_init :: "int \<Rightarrow> watchdog_vars" where
  "watchdog_init cn0 =
     \<lparr>scores = replicate MAXCLIENTS 0, wd_frontrunner = 0, winner = - 1, client_nr = cn0\<rparr>"

text \<open>The loop \<open>for (i=0;i<MAXCLIENTS;i++) kill(clientpids[i], SIGUSR1)\<close>.\<close>

definition broadcast :: "game \<Rightarrow> action list" where
  "broadcast g =
     concat (map (\<lambda>i. [Shm_read (Clientpids i), Kill (clientpids g ! i)]) [0..<MAXCLIENTS])"

text \<open>
  \<open>watchdog_code\<close>, with the segment attached, followed by the \<open>exit(EXIT_SUCCESS)\<close>
  of the branch of \<open>main\<close> that called it.
\<close>

definition watchdog_code ::
  "nat \<Rightarrow> int \<Rightarrow> wd_env list \<Rightarrow> game \<Rightarrow>
     wd_exit \<times> (watchdog_vars \<times> game) list \<times> action list" where
  "watchdog_code pid cn0 es g =
     (case watchdog_loop es (watchdog_init cn0) g of
        (x, cs, t) \<Rightarrow>
          if x = Loop_done then
            (x, cs, [Printf (Watchdog_starting pid)] @ t @
                    [Printf (Watchdog_finished (winner (fst (last cs))))] @
                    broadcast (snd (last cs)) @ [Exit EXIT_SUCCESS])
          else (x, cs, [Printf (Watchdog_starting pid)] @ t))"

text \<open>\<open>main\<close> sets \<open>runs_done=0\<close> in the fresh segment before it forks.\<close>

definition main_init :: "game \<Rightarrow> game" where
  "main_init g = g\<lparr>runs_done := 0\<rparr>"

subsection \<open>\<open>client_code\<close> and the client branch of \<open>main\<close>\<close>

text \<open>
  What the system calls of one iteration of the sending loop return: whether \<open>msgsnd\<close>
  and the two \<open>semop\<close> calls succeed, and the value found in \<open>game_main->frontrunner\<close>.
\<close>

record cl_env =
  send_ok :: bool
  cl_lock_ok :: bool
  cl_unlock_ok :: bool
  shm_frontrunner :: int

text \<open>The state a client carries through its loop: the generator and its local
  \<open>frontrunner\<close>.\<close>

record 'g client_vars =
  generator :: 'g
  cl_frontrunner :: int

definition client_iteration ::
  "(nat \<Rightarrow> 'g) \<Rightarrow> ('g \<Rightarrow> nat \<times> 'g) \<Rightarrow> nat \<Rightarrow> nat \<Rightarrow> cl_env \<Rightarrow> 'g client_vars \<Rightarrow>
     'g client_vars \<times> action list" where
  "client_iteration srand rand pid nr e s =
     (let (d, st) = random_sleep srand rand pid (generator s) in
      if \<not> send_ok e
      then (s\<lparr>generator := st\<rparr>, [Usleep d, Msgsnd nr False, Perror (Err_msgsnd nr)])
      else
        let (r1, t1) = sem_operation LOCK (cl_lock_ok e);
            actual_frontrunner = shm_frontrunner e;
            (r2, t2) = sem_operation UNLOCK (cl_unlock_ok e);
            fr = (if cl_frontrunner s \<noteq> actual_frontrunner then actual_frontrunner
                  else cl_frontrunner s)
        in (\<lparr>generator = st, cl_frontrunner = fr\<rparr>,
            [Usleep d, Msgsnd nr True] @ t1 @ [Shm_read Frontrunner] @ t2))"

text \<open>
  The loop \<open>for (i=0;i<MSGNR;i++)\<close>: \<open>k\<close> iterations are still to run and the next one
  is number \<open>i\<close>.
\<close>

fun client_loop ::
  "(nat \<Rightarrow> 'g) \<Rightarrow> ('g \<Rightarrow> nat \<times> 'g) \<Rightarrow> nat \<Rightarrow> nat \<Rightarrow> (nat \<Rightarrow> cl_env) \<Rightarrow> nat \<Rightarrow> nat \<Rightarrow>
     'g client_vars \<Rightarrow> 'g client_vars \<times> action list" where
  "client_loop srand rand pid nr env 0 i s = (s, [])"
| "client_loop srand rand pid nr env (Suc k) i s =
     (case client_iteration srand rand pid nr (env i) s of
        (s1, t1) \<Rightarrow>
          (case client_loop srand rand pid nr env k (Suc i) s1 of
             (s2, t2) \<Rightarrow> (s2, t1 @ t2)))"

text \<open>
  What the other system calls of a client return: the two \<open>semop\<close> calls around the
  registration of its pid, \<open>sigaction\<close>, and the iterations of the loop.
\<close>

record client_sys =
  reg_lock_ok :: bool
  reg_unlock_ok :: bool
  sigaction_ok :: bool
  iteration :: "nat \<Rightarrow> cl_env"

definition client_code ::
  "(nat \<Rightarrow> 'g) \<Rightarrow> ('g \<Rightarrow> nat \<times> 'g) \<Rightarrow> nat \<Rightarrow> nat \<Rightarrow> client_sys \<Rightarrow> 'g \<Rightarrow>
     'g client_vars \<times> action list" where
  "client_code srand rand pid nr sys st =
     (case client_loop srand rand pid nr (iteration sys) MSGNR 0
             \<lparr>generator = st, cl_frontrunner = 0\<rparr> of
        (s, t) \<Rightarrow>
          (s, [Printf (Client_starting nr pid)] @
              (if sigaction_ok sys then [] else [Perror (Err_sigaction nr)]) @
              t @ [Printf (Client_finished nr)]))"

text \<open>
  The branch \<open>case 0\<close> of the forking loop of \<open>main\<close>, for the client with index \<open>i\<close>:
  registration of the pid, one \<open>random_sleep\<close>, \<open>client_code(i)\<close>, \<open>exit\<close>.
\<close>

definition main_client ::
  "(nat \<Rightarrow> 'g) \<Rightarrow> ('g \<Rightarrow> nat \<times> 'g) \<Rightarrow> nat \<Rightarrow> nat \<Rightarrow> client_sys \<Rightarrow> 'g \<Rightarrow> action list" where
  "main_client srand rand pid i sys st =
     (let (r1, t1) = sem_operation LOCK (reg_lock_ok sys);
          (r2, t2) = sem_operation UNLOCK (reg_unlock_ok sys);
          (d, st1) = random_sleep srand rand pid st;
          (s, t3) = client_code srand rand pid i sys st1
      in t1 @ [Shm_write (Clientpids i) (int pid)] @ t2 @ [Usleep d] @ t3 @
         [Exit EXIT_SUCCESS])"

text \<open>The part of \<open>main_client\<close> that follows the registration.\<close>

definition after_registration ::
  "(nat \<Rightarrow> 'g) \<Rightarrow> ('g \<Rightarrow> nat \<times> 'g) \<Rightarrow> nat \<Rightarrow> nat \<Rightarrow> client_sys \<Rightarrow> 'g \<Rightarrow> action list" where
  "after_registration srand rand pid i sys st =
     (let (d, st1) = random_sleep srand rand pid st;
          (s, t3) = client_code srand rand pid i sys st1
      in [Usleep d] @ t3 @ [Exit EXIT_SUCCESS])"

subsection \<open>Notions used in the statements\<close>

text \<open>The test that guards \<open>winner = frontrunner\<close>, on the variables after the scan.\<close>

definition reached_target :: "watchdog_vars \<Rightarrow> bool" where
  "reached_target v \<longleftrightarrow>
     scores v ! nat (wd_frontrunner v) = int MSGNR \<and> client_nr v = wd_frontrunner v"

text \<open>A received message that passes the \<open>sscanf\<close> guard and is counted.\<close>

definition counted :: "wd_env \<Rightarrow> bool" where
  "counted e = (case received e of None \<Rightarrow> False | Some r \<Rightarrow> \<not> sscanf_return r < 0)"

text \<open>
  The message a client \<open>k\<close> sends, received and converted, with both \<open>semop\<close> calls
  succeeding; and a segment as \<open>shmget\<close> hands it out, filled with zeros.
\<close>

definition report :: "int \<Rightarrow> wd_env" where
  "report k = \<lparr>received = Some (Converted k), lock_ok = True, unlock_ok = True\<rparr>"

definition fresh_segment :: game where
  "fresh_segment = \<lparr>frontrunner = 0, runs_done = 0, clientpids = replicate MAXCLIENTS 0\<rparr>"

text \<open>The \<open>usleep\<close> calls and the \<open>msgsnd\<close> calls of a trace, the latter with the
  number sent and whether the call succeeded.\<close>

fun is_usleep :: "action \<Rightarrow> bool" where
  "is_usleep (Usleep d) = True"
| "is_usleep _ = False"

definition sends :: "action list \<Rightarrow> (nat \<times> bool) list" where
  "sends t = [(nr, ok). Msgsnd nr ok \<leftarrow> t]"

text \<open>What \<open>rand() % 398\<close> gives right after \<open>srand(pid % 1234)\<close>.\<close>

definition delay :: "(nat \<Rightarrow> 'g) \<Rightarrow> ('g \<Rightarrow> nat \<times> 'g) \<Rightarrow> nat \<Rightarrow> nat" where
  "delay srand rand pid = fst (rand (srand (pid mod 1234))) mod 398"

text \<open>
  The reading of a fatal \<open>semop\<close>: whenever a \<open>semop\<close> call of a trace fails, the
  failure is reported and the process exits with \<open>EXIT_FAILURE\<close>, doing nothing more.
\<close>

fun fatal_semop :: "action list \<Rightarrow> bool" where
  "fatal_semop [] = True"
| "fatal_semop (Semop op ok # t) =
     (if ok then fatal_semop t else t = [Perror Err_semop, Exit EXIT_FAILURE])"
| "fatal_semop (a # t) = fatal_semop t"

text \<open>
  A trace without its \<open>semop\<close> calls and their \<open>perror\<close> lines, and the environments
  in which every \<open>semop\<close> succeeds.
\<close>

fun semop_related :: "action \<Rightarrow> bool" where
  "semop_related (Semop op ok) = True"
| "semop_related (Perror Err_semop) = True"
| "semop_related _ = False"

definition other_actions :: "action list \<Rightarrow> action list" where
  "other_actions t = filter (\<lambda>a. \<not> semop_related a) t"

definition semops_succeed :: "wd_env \<Rightarrow> wd_env" where
  "semops_succeed e = e\<lparr>lock_ok := True, unlock_ok := True\<rparr>"

definition sys_semops_succeed :: "client_sys \<Rightarrow> client_sys" where
  "sys_semops_succeed sys =
     sys\<lparr>reg_lock_ok := True, reg_unlock_ok := True,
         iteration := (\<lambda>j. (iteration sys j)\<lparr>cl_lock_ok := True, cl_unlock_ok := True\<rparr>)\<rparr>"

text \<open>
  What holds of the score table while no winner is recorded: every score is below
  \<open>MSGNR\<close> and the scores add up to \<open>runs_done\<close>.
\<close>

definition tally_inv :: "watchdog_vars \<Rightarrow> game \<Rightarrow> bool" where
  "tally_inv v g \<longleftrightarrow>
     length (scores v) = MAXCLIENTS \<and> list_all (\<lambda>s. 0 \<le> s \<and> s < int MSGNR) (scores v) \<and>
     sum_list (scores v) = runs_done g \<and> 0 \<le> wd_frontrunner v \<and> winner v = - 1"




fun is_semop :: "action \<Rightarrow> bool" where
  "is_semop (Semop op ok) = True"
| "is_semop _ = False"


section \<open>The scan for the frontrunner\<close>

lemma scan_invariant:
  assumes "n \<le> length sc"
  shows "case foldl (scan_step sc) (0, fr) [0..<n] of (m, f) \<Rightarrow>
           0 \<le> m \<and> (\<forall>j<n. sc ! j \<le> m) \<and>
           (if m = 0 then f = fr
            else \<exists>k<n. f = int k \<and> sc ! k = m \<and> (\<forall>j<k. sc ! j < m))"
  using assms
proof (induction n)
  case 0
  then show ?case by simp
next
  case (Suc n)
  obtain m f where mf: "foldl (scan_step sc) (0, fr) [0..<n] = (m, f)"
    by (cases "foldl (scan_step sc) (0, fr) [0..<n]")
  from Suc mf have ih: "0 \<le> m" "\<forall>j<n. sc ! j \<le> m"
    "if m = 0 then f = fr else \<exists>k<n. f = int k \<and> sc ! k = m \<and> (\<forall>j<k. sc ! j < m)"
    by auto
  show ?case
  proof (cases "sc ! n > m")
    case True
    then have step: "foldl (scan_step sc) (0, fr) [0..<Suc n] = (sc ! n, int n)"
      using mf by (simp add: scan_step_def)
    have "\<forall>j<Suc n. sc ! j \<le> sc ! n"
      using ih(2) True by (auto simp: less_Suc_eq)
    moreover have "\<forall>j<n. sc ! j < sc ! n"
      using ih(2) True by fastforce
    ultimately show ?thesis
      using step ih(1) True by auto
  next
    case False
    then have step: "foldl (scan_step sc) (0, fr) [0..<Suc n] = (m, f)"
      using mf by (simp add: scan_step_def)
    have "\<forall>j<Suc n. sc ! j \<le> m"
      using ih(2) False by (auto simp: less_Suc_eq)
    then show ?thesis
      using step ih(1) ih(3) by (auto simp: less_Suc_eq)
  qed
qed

lemma check_frontrunner_nonneg: "0 \<le> fr \<Longrightarrow> 0 \<le> check_frontrunner sc fr"
proof -
  have "0 \<le> fr \<Longrightarrow> 0 \<le> snd (foldl (scan_step sc) (0, fr) [0..<n])" for n
    by (induction n) (auto simp: scan_step_def split: prod.splits)
  then show "0 \<le> fr \<Longrightarrow> 0 \<le> check_frontrunner sc fr"
    by (simp add: check_frontrunner_def)
qed

lemma check_frontrunner_less:
  "fr < int MAXCLIENTS \<Longrightarrow> check_frontrunner sc fr < int MAXCLIENTS"
proof -
  have "fr < int MAXCLIENTS \<Longrightarrow> n \<le> MAXCLIENTS \<Longrightarrow> snd (foldl (scan_step sc) (0, fr) [0..<n]) < int MAXCLIENTS" for n
    by (induction n) (auto simp: scan_step_def split: prod.splits)
  then show "fr < int MAXCLIENTS \<Longrightarrow> check_frontrunner sc fr < int MAXCLIENTS"
    by (simp add: check_frontrunner_def)
qed

text \<open>
  With some positive score in the table, the scan returns the least index among the
  greatest scores.
\<close>

lemma check_frontrunner_least_max:
  assumes len: "length sc = MAXCLIENTS" and pos: "i < MAXCLIENTS" "0 < sc ! i"
  shows "\<exists>k<MAXCLIENTS. check_frontrunner sc fr = int k \<and>
           (\<forall>j<MAXCLIENTS. sc ! j \<le> sc ! k) \<and> (\<forall>j<k. sc ! j < sc ! k)"
proof -
  obtain m f where mf: "foldl (scan_step sc) (0, fr) [0..<MAXCLIENTS] = (m, f)"
    by (cases "foldl (scan_step sc) (0, fr) [0..<MAXCLIENTS]")
  have inv: "0 \<le> m \<and> (\<forall>j<MAXCLIENTS. sc ! j \<le> m) \<and>
           (if m = 0 then f = fr
            else \<exists>k<MAXCLIENTS. f = int k \<and> sc ! k = m \<and> (\<forall>j<k. sc ! j < m))"
    using scan_invariant [of MAXCLIENTS sc fr] len mf by simp
  then have "sc ! i \<le> m" using pos(1) by blast
  then have "m \<noteq> 0" using pos(2) by simp
  then obtain k where "k < MAXCLIENTS" "f = int k" "sc ! k = m" "\<forall>j<k. sc ! j < m"
    using inv by auto
  then show ?thesis
    using inv mf by (auto simp: check_frontrunner_def)
qed

text \<open>
  C1. After each counted message the watchdog recomputes the frontrunner as the client with
  the strictly greatest score, and a client that only draws level with the frontrunner
  does not displace it. The scan restarts from \<open>frontrunner_score = 0\<close> at index 0, so
  it is the lowest index among the greatest scores that wins: after one message of client
  1 and one of client 0 the scores are level and the frontrunner, local and published,
  changes from 1 to 0; and after five messages of client 1 followed by five of client 0
  the watchdog announces both clients as first to get to 5 points.
\<close>

theorem tie_displaces_incumbent:
  "map (\<lambda>c. (scores (fst c) ! 0, scores (fst c) ! 1, wd_frontrunner (fst c), frontrunner (snd c)))
       (fst (snd (watchdog_loop [report 1, report 0] (watchdog_init 0) (main_init fresh_segment))))
     = [(0, 0, 0, 0), (0, 1, 1, 1), (1, 1, 0, 0)] \<and>
   [l. Printf l \<leftarrow> snd (snd (watchdog_code 1 0 (replicate 5 (report 1) @ replicate 5 (report 0))
                                  (main_init fresh_segment)))]
     = [Watchdog_starting 1, First_to_get_to 1 5, First_to_get_to 0 5]"
  by code_simp

section \<open>The loop of the watchdog\<close>

lemma watchdog_body_received:
  "watchdog_body e v g = Next v' g' t \<Longrightarrow> \<exists>r. received e = Some r"
  by (cases "received e") (simp_all add: watchdog_body_def)

lemma watchdog_body_skipped:
  assumes "watchdog_body e v g = Next v' g' t" "received e = Some r" "sscanf_return r < 0"
  shows "v' = v \<and> g' = g \<and> t = [Msgrcv True, Perror Err_sscanf]"
  using assms by (simp add: watchdog_body_def)

lemma watchdog_body_counted:
  assumes "watchdog_body e v g = Next v' g' t" "received e = Some r" "\<not> sscanf_return r < 0"
  shows "client_nr v' = sscanf_store r (client_nr v) \<and>
         0 \<le> client_nr v' \<and> client_nr v' < int MAXCLIENTS \<and>
         scores v' = (scores v)[nat (client_nr v') := scores v ! nat (client_nr v') + 1] \<and>
         wd_frontrunner v' = check_frontrunner (scores v') (wd_frontrunner v) \<and>
         winner v' = (if reached_target v' then wd_frontrunner v' else winner v) \<and>
         g' = g\<lparr>frontrunner := wd_frontrunner v', runs_done := runs_done g + 1\<rparr>"
proof -
  let ?cn = "sscanf_store r (client_nr v)"
  let ?sc = "(scores v)[nat ?cn := scores v ! nat ?cn + 1]"
  let ?fr = "check_frontrunner ?sc (wd_frontrunner v)"
  have inb: "\<not> (?cn < 0 \<or> int MAXCLIENTS \<le> ?cn)"
    using assms by (auto simp: watchdog_body_def)
  have "Next \<lparr>scores = ?sc, wd_frontrunner = ?fr,
               winner = (if ?sc ! nat ?fr = int MSGNR \<and> ?cn = ?fr then ?fr else winner v),
               client_nr = ?cn\<rparr>
             (g\<lparr>frontrunner := ?fr, runs_done := runs_done g + 1\<rparr>) t = Next v' g' t"
    using assms inb by (simp add: watchdog_body_def Let_def split_def)
  then have v': "v' = \<lparr>scores = ?sc, wd_frontrunner = ?fr,
               winner = (if ?sc ! nat ?fr = int MSGNR \<and> ?cn = ?fr then ?fr else winner v),
               client_nr = ?cn\<rparr>"
    and g': "g' = g\<lparr>frontrunner := ?fr, runs_done := runs_done g + 1\<rparr>"
    by simp_all
  show ?thesis
    using inb by (auto simp: v' g' reached_target_def)
qed

lemma watchdog_loop_hd:
  "watchdog_loop es v g = (x, cs, t) \<Longrightarrow> cs \<noteq> [] \<and> hd cs = (v, g)"
  by (cases es) (auto split: body_result.splits prod.splits if_splits)

lemma watchdog_loop_rule:
  assumes "watchdog_loop es v g = (x, cs, t)"
    and "I v g"
    and "\<And>e v g v' g' t. I v g \<Longrightarrow> watchdog_body e v g = Next v' g' t \<Longrightarrow>
           loop_condition v' g' \<Longrightarrow> I v' g'"
  shows "(\<forall>c\<in>set (butlast cs). I (fst c) (snd c)) \<and>
         (x \<noteq> Loop_done \<longrightarrow> I (fst (last cs)) (snd (last cs))) \<and>
         (x = Loop_done \<longrightarrow>
            (\<exists>e v0 g0 t0. I v0 g0 \<and>
               watchdog_body e v0 g0 = Next (fst (last cs)) (snd (last cs)) t0 \<and>
               \<not> loop_condition (fst (last cs)) (snd (last cs))))"
  using assms(1,2)
proof (induction es arbitrary: v g x cs t)
  case Nil
  then show ?case by auto
next
  case (Cons e es)
  show ?case
  proof (cases "watchdog_body e v g")
    case (Rcv_error t1)
    with Cons.prems show ?thesis by auto
  next
    case (Out_of_bounds t1)
    with Cons.prems show ?thesis by auto
  next
    case (Next v' g' t1)
    show ?thesis
    proof (cases "loop_condition v' g'")
      case False
      then have eq: "x = Loop_done" "cs = [(v, g), (v', g')]"
        using Cons.prems(1) Next by auto
      have "\<exists>e v0 g0 t0. I v0 g0 \<and> watchdog_body e v0 g0 = Next v' g' t0 \<and>
               \<not> loop_condition v' g'"
        using Cons.prems(2) Next False by blast
      then show ?thesis
        using eq Cons.prems(2) by simp
    next
      case True
      obtain x' cs' t' where run': "watchdog_loop es v' g' = (x', cs', t')"
        by (cases "watchdog_loop es v' g'")
      have I': "I v' g'"
        using assms(3) [OF Cons.prems(2) Next True] .
      have ne: "cs' \<noteq> []"
        using watchdog_loop_hd [OF run'] by simp
      have eq: "x = x'" "cs = (v, g) # cs'"
        using Cons.prems(1) Next True run' by auto
      from Cons.IH [OF run' I'] ne eq Cons.prems(2) show ?thesis
        by auto
    qed
  qed
qed

lemma watchdog_code_loop:
  assumes "watchdog_code pid cn0 es g = (x, cs, t)"
  obtains t0 where "watchdog_loop es (watchdog_init cn0) g = (x, cs, t0)"
    and "t = (if x = Loop_done
              then [Printf (Watchdog_starting pid)] @ t0 @
                   [Printf (Watchdog_finished (winner (fst (last cs))))] @
                   broadcast (snd (last cs)) @ [Exit EXIT_SUCCESS]
              else [Printf (Watchdog_starting pid)] @ t0)"
  using assms
  by (auto simp: watchdog_code_def split: prod.splits if_splits)

lemma watchdog_body_Out_of_bounds:
  assumes "watchdog_body e v g = Out_of_bounds t"
  shows "\<exists>r. received e = Some r \<and> \<not> sscanf_return r < 0 \<and>
           (sscanf_store r (client_nr v) < 0 \<or> int MAXCLIENTS \<le> sscanf_store r (client_nr v))"
proof (cases "received e")
  case None
  with assms show ?thesis by (simp add: watchdog_body_def)
next
  case (Some r)
  with assms show ?thesis
    by (cases "sscanf_return r < 0"; cases "sscanf_store r (client_nr v) < 0 \<or> int MAXCLIENTS \<le> sscanf_store r (client_nr v)")
       (simp_all add: watchdog_body_def Let_def split_def)
qed

lemma watchdog_loop_chain:
  assumes "watchdog_loop es v g = (x, cs, t)" "Suc i < length cs"
  shows "i < length es \<and>
         (\<exists>t'. watchdog_body (es ! i) (fst (cs ! i)) (snd (cs ! i)) =
                 Next (fst (cs ! Suc i)) (snd (cs ! Suc i)) t')"
  using assms
proof (induction es arbitrary: v g x cs t i)
  case Nil
  then show ?case by auto
next
  case (Cons e es)
  show ?case
  proof (cases "watchdog_body e v g")
    case (Rcv_error t1)
    with Cons.prems show ?thesis by auto
  next
    case (Out_of_bounds t1)
    with Cons.prems show ?thesis by auto
  next
    case (Next v' g' t1)
    show ?thesis
    proof (cases "loop_condition v' g'")
      case False
      then have "cs = [(v, g), (v', g')]"
        using Cons.prems(1) Next by auto
      with Cons.prems(2) Next show ?thesis by simp
    next
      case True
      obtain x' cs' t' where run': "watchdog_loop es v' g' = (x', cs', t')"
        by (cases "watchdog_loop es v' g'")
      have hd': "cs' \<noteq> []" "hd cs' = (v', g')"
        using watchdog_loop_hd [OF run'] by simp_all
      have eq: "cs = (v, g) # cs'"
        using Cons.prems(1) Next True run' by auto
      show ?thesis
      proof (cases i)
        case 0
        have "cs' ! 0 = (v', g')"
          using hd' by (simp add: hd_conv_nth)
        with 0 eq Next show ?thesis by simp
      next
        case (Suc j)
        then have "Suc j < length cs'"
          using Cons.prems(2) eq by simp
        from Cons.IH [OF run' this] Suc eq show ?thesis by simp
      qed
    qed
  qed
qed

lemma watchdog_body_runs_done:
  assumes "watchdog_body e v g = Next v' g' t"
  shows "runs_done g' = runs_done g + (if counted e then 1 else 0)"
proof -
  obtain r where r: "received e = Some r"
    using watchdog_body_received [OF assms] by blast
  show ?thesis
  proof (cases "sscanf_return r < 0")
    case True
    with watchdog_body_skipped [OF assms r] r show ?thesis
      by (simp add: counted_def)
  next
    case False
    with watchdog_body_counted [OF assms r] r show ?thesis
      by (simp add: counted_def)
  qed
qed

lemma watchdog_init_inv:
  "winner (watchdog_init cn0) = - 1 \<and> \<not> reached_target (watchdog_init cn0) \<and>
   wd_frontrunner (watchdog_init cn0) = 0 \<and> length (scores (watchdog_init cn0)) = MAXCLIENTS"
  by (simp add: watchdog_init_def reached_target_def MAXCLIENTS_def MSGNR_def)

lemma last_in_set_cases:
  "cs \<noteq> [] \<Longrightarrow> c \<in> set cs \<Longrightarrow> c \<in> set (butlast cs) \<or> c = last cs"
  by (metis append_butlast_last_id insert_iff list.set(2) rotate1.simps(2) set_rotate1)

section \<open>The winner\<close>

text \<open>
  C4. In every run of the watchdog, whatever messages arrive: at each point of the run
  \<open>winner\<close> differs from \<open>-1\<close> exactly when the frontrunner's score equals \<open>MSGNR\<close>
  and the message just counted is the frontrunner's, and it is then the frontrunner; at
  every point but the last \<open>winner\<close> is still \<open>-1\<close>, so it is assigned at most once; and
  once it is assigned the loop is left through its condition, so no later iteration can
  assign it again.
\<close>

theorem winner_recorded_once:
  assumes "watchdog_code pid cn0 es g = (x, cs, t)"
  shows "(\<forall>c\<in>set cs. (winner (fst c) \<noteq> - 1 \<longleftrightarrow> reached_target (fst c)) \<and>
                    (reached_target (fst c) \<longrightarrow> winner (fst c) = wd_frontrunner (fst c))) \<and>
         (\<forall>c\<in>set (butlast cs). winner (fst c) = - 1) \<and>
         (winner (fst (last cs)) \<noteq> - 1 \<longrightarrow> x = Loop_done)"
proof -
  define I where "I = (\<lambda>v (g::game). winner v = - 1 \<and> \<not> reached_target v \<and> 0 \<le> wd_frontrunner v)"
  obtain t0 where run: "watchdog_loop es (watchdog_init cn0) g = (x, cs, t0)"
    using assms by (rule watchdog_code_loop)
  have init: "I (watchdog_init cn0) g"
    using watchdog_init_inv [of cn0] by (simp add: I_def)
  have body: "winner v' = (if reached_target v' then wd_frontrunner v' else - 1) \<and>
              0 \<le> wd_frontrunner v'"
    if inv: "I v g0" and bd: "watchdog_body e v g0 = Next v' g' t'" for e v g0 v' g' t'
  proof -
    obtain r where r: "received e = Some r"
      using watchdog_body_received [OF bd] by blast
    show ?thesis
    proof (cases "sscanf_return r < 0")
      case True
      with watchdog_body_skipped [OF bd r] inv show ?thesis
        by (simp add: I_def)
    next
      case False
      with watchdog_body_counted [OF bd r] inv
        check_frontrunner_nonneg [of "wd_frontrunner v" "scores v'"]
      show ?thesis
        by (simp add: I_def)
    qed
  qed
  have step: "I v' g'"
    if inv: "I v g0" and bd: "watchdog_body e v g0 = Next v' g' t'" and lc: "loop_condition v' g'"
    for e v g0 v' g' t'
    using body [OF inv bd] lc by (auto simp: I_def loop_condition_def split: if_splits)
  have rule: "(\<forall>c\<in>set (butlast cs). I (fst c) (snd c)) \<and>
         (x \<noteq> Loop_done \<longrightarrow> I (fst (last cs)) (snd (last cs))) \<and>
         (x = Loop_done \<longrightarrow>
            (\<exists>e v0 g0 t0. I v0 g0 \<and>
               watchdog_body e v0 g0 = Next (fst (last cs)) (snd (last cs)) t0 \<and>
               \<not> loop_condition (fst (last cs)) (snd (last cs))))"
  proof (rule watchdog_loop_rule [where I = I, OF run init])
    fix e v g0 v' g' t'
    assume "I v g0" "watchdog_body e v g0 = Next v' g' t'" "loop_condition v' g'"
    then show "I v' g'" by (rule step)
  qed
  have ne: "cs \<noteq> []"
    using watchdog_loop_hd [OF run] by simp
  have front: "\<forall>c\<in>set (butlast cs). I (fst c) (snd c)"
    using rule by blast
  have last: "winner (fst (last cs)) = (if reached_target (fst (last cs))
                 then wd_frontrunner (fst (last cs)) else - 1) \<and> 0 \<le> wd_frontrunner (fst (last cs))"
  proof (cases "x = Loop_done")
    case True
    then obtain e v0 g0 t1 where "I v0 g0"
      "watchdog_body e v0 g0 = Next (fst (last cs)) (snd (last cs)) t1"
      using rule by blast
    then show ?thesis by (rule body)
  next
    case False
    then have "I (fst (last cs)) (snd (last cs))"
      using rule by blast
    then show ?thesis by (simp add: I_def)
  qed
  have all: "(winner (fst c) \<noteq> - 1 \<longleftrightarrow> reached_target (fst c)) \<and>
             (reached_target (fst c) \<longrightarrow> winner (fst c) = wd_frontrunner (fst c))"
    if "c \<in> set cs" for c
    using last_in_set_cases [OF ne that] front last by (auto simp: I_def split: if_splits)
  have exit: "winner (fst (last cs)) \<noteq> - 1 \<longrightarrow> x = Loop_done"
    using rule by (auto simp: I_def)
  show ?thesis
    using all front exit by (simp add: I_def)
qed

theorem winner_recorded_once_witness:
  "fst (watchdog_code 1 0 (replicate 100 (report 3)) (main_init fresh_segment)) = Loop_done \<and>
   winner (fst (last (fst (snd
     (watchdog_code 1 0 (replicate 100 (report 3)) (main_init fresh_segment)))))) = 3"
proof -
  let ?r = "watchdog_code 1 0 (replicate 100 (report 3)) (main_init fresh_segment)"
  have w: "winner (fst (last (fst (snd ?r)))) = 3"
    by code_simp
  have "?r = (fst ?r, fst (snd ?r), snd (snd ?r))"
    by simp
  from winner_recorded_once [OF this] w show ?thesis
    by simp
qed

section \<open>Leaving the loop\<close>

lemma watchdog_body_no_exit:
  assumes "watchdog_body e v g = Next v' g' t"
  shows "Exit c \<notin> set t"
proof -
  obtain r where r: "received e = Some r"
    using watchdog_body_received [OF assms] by blast
  show ?thesis
  proof (cases "sscanf_return r < 0")
    case True
    with watchdog_body_skipped [OF assms r] show ?thesis by simp
  next
    case False
    let ?cn = "sscanf_store r (client_nr v)"
    have inb: "\<not> (?cn < 0 \<or> int MAXCLIENTS \<le> ?cn)"
      using assms r False by (auto simp: watchdog_body_def)
    show ?thesis
      using assms r False inb
      by (auto simp: watchdog_body_def Let_def split_def sem_operation_def split: if_splits)
  qed
qed

lemma watchdog_loop_no_exit:
  assumes "watchdog_loop es v g = (x, cs, t)" "x \<noteq> Exited_failure"
  shows "Exit c \<notin> set t"
  using assms
proof (induction es arbitrary: v g x cs t)
  case Nil
  then show ?case by auto
next
  case (Cons e es)
  show ?case
  proof (cases "watchdog_body e v g")
    case (Rcv_error t1)
    with Cons.prems show ?thesis by auto
  next
    case (Out_of_bounds t1)
    then have "t1 = [Msgrcv True]"
      by (auto simp: watchdog_body_def Let_def split_def split: option.splits if_splits)
    with Out_of_bounds Cons.prems show ?thesis by auto
  next
    case (Next v' g' t1)
    have t1: "Exit c \<notin> set t1"
      using Next by (rule watchdog_body_no_exit)
    have lc: "Exit c \<notin> set (loop_condition_trace v')"
      by (simp add: loop_condition_trace_def)
    show ?thesis
    proof (cases "loop_condition v' g'")
      case False
      with Next Cons.prems t1 lc show ?thesis by auto
    next
      case True
      obtain x' cs' t' where run': "watchdog_loop es v' g' = (x', cs', t')"
        by (cases "watchdog_loop es v' g'")
      have eq: "x = x'" "t = t1 @ loop_condition_trace v' @ t'"
        using Cons.prems(1) Next True run' by auto
      from Cons.IH [OF run'] eq Cons.prems(2) t1 lc show ?thesis by simp
    qed
  qed
qed

lemma broadcast_no_exit: "Exit c \<notin> set (broadcast g)"
  by (auto simp: broadcast_def)

text \<open>
  C5. Started with \<open>runs_done\<close> below \<open>MAXRUNS\<close>, the receive loop is left through its
  condition exactly when, after an iteration, a winner is recorded or \<open>runs_done\<close> has
  reached \<open>MAXRUNS\<close>, and at the first such point: before it neither holds. However
  the loop is left this way, with or without a winner, the watchdog goes on to print its
  last line, signals every client and exits with \<open>EXIT_SUCCESS\<close>; it never exits with
  \<open>EXIT_FAILURE\<close> on this path. (A failed \<open>msgrcv\<close> ends the process inside the loop,
  and an empty queue blocks it there; these are the other values of the exit kind.)
\<close>

theorem loop_exit_condition:
  assumes "runs_done g < MAXRUNS" and "watchdog_code pid cn0 es g = (x, cs, t)"
  shows "(x = Loop_done \<longleftrightarrow>
            winner (fst (last cs)) \<noteq> - 1 \<or> MAXRUNS \<le> runs_done (snd (last cs))) \<and>
         (\<forall>c\<in>set (butlast cs). winner (fst c) = - 1 \<and> runs_done (snd c) < MAXRUNS) \<and>
         (x = Loop_done \<longrightarrow>
            (\<exists>t0. t = t0 @ [Printf (Watchdog_finished (winner (fst (last cs))))] @
                      broadcast (snd (last cs)) @ [Exit EXIT_SUCCESS]) \<and>
            Exit EXIT_FAILURE \<notin> set t)"
proof -
  obtain t0 where run: "watchdog_loop es (watchdog_init cn0) g = (x, cs, t0)"
    and t: "t = (if x = Loop_done
              then [Printf (Watchdog_starting pid)] @ t0 @
                   [Printf (Watchdog_finished (winner (fst (last cs))))] @
                   broadcast (snd (last cs)) @ [Exit EXIT_SUCCESS]
              else [Printf (Watchdog_starting pid)] @ t0)"
    using assms(2) by (rule watchdog_code_loop)
  have init: "loop_condition (watchdog_init cn0) g"
    using assms(1) watchdog_init_inv [of cn0] by (simp add: loop_condition_def)
  have rule: "(\<forall>c\<in>set (butlast cs). loop_condition (fst c) (snd c)) \<and>
         (x \<noteq> Loop_done \<longrightarrow> loop_condition (fst (last cs)) (snd (last cs))) \<and>
         (x = Loop_done \<longrightarrow>
            (\<exists>e v0 g0 t0. loop_condition v0 g0 \<and>
               watchdog_body e v0 g0 = Next (fst (last cs)) (snd (last cs)) t0 \<and>
               \<not> loop_condition (fst (last cs)) (snd (last cs))))"
    by (rule watchdog_loop_rule [where I = loop_condition, OF run init])
  have iff: "x = Loop_done \<longleftrightarrow>
            winner (fst (last cs)) \<noteq> - 1 \<or> MAXRUNS \<le> runs_done (snd (last cs))"
    using rule by (auto simp: loop_condition_def)
  have front: "\<forall>c\<in>set (butlast cs). winner (fst c) = - 1 \<and> runs_done (snd c) < MAXRUNS"
    using rule by (simp add: loop_condition_def)
  have after: "(\<exists>t1. t = t1 @ [Printf (Watchdog_finished (winner (fst (last cs))))] @
                      broadcast (snd (last cs)) @ [Exit EXIT_SUCCESS]) \<and>
            Exit EXIT_FAILURE \<notin> set t" if fin: "x = Loop_done"
  proof -
    have "Exit EXIT_FAILURE \<notin> set t0"
      using watchdog_loop_no_exit [OF run] fin by simp
    moreover have "t = ([Printf (Watchdog_starting pid)] @ t0) @
        [Printf (Watchdog_finished (winner (fst (last cs))))] @
                      broadcast (snd (last cs)) @ [Exit EXIT_SUCCESS]"
      using t fin by simp
    ultimately show ?thesis
      using broadcast_no_exit [of EXIT_FAILURE "snd (last cs)"]
      by (auto simp: EXIT_FAILURE_def EXIT_SUCCESS_def)
  qed
  show ?thesis
    using iff front after by blast
qed

theorem loop_exit_condition_witness:
  "fst (watchdog_code 1 0 [report 0] (fresh_segment\<lparr>runs_done := 1199\<rparr>)) = Loop_done \<and>
   winner (fst (last (fst (snd (watchdog_code 1 0 [report 0] (fresh_segment\<lparr>runs_done := 1199\<rparr>)))))) = - 1 \<and>
   last (snd (snd (watchdog_code 1 0 [report 0] (fresh_segment\<lparr>runs_done := 1199\<rparr>)))) = Exit EXIT_SUCCESS"
proof -
  let ?g = "fresh_segment\<lparr>runs_done := 1199\<rparr>"
  let ?r = "watchdog_code 1 0 [report 0] ?g"
  have pre: "runs_done ?g < MAXRUNS"
    by (simp add: MAXRUNS_def MSGNR_def MAXCLIENTS_def)
  have full: "MAXRUNS \<le> runs_done (snd (last (fst (snd ?r))))"
    by code_simp
  have w: "winner (fst (last (fst (snd ?r)))) = - 1"
    by code_simp
  have "?r = (fst ?r, fst (snd ?r), snd (snd ?r))"
    by simp
  from loop_exit_condition [OF pre this] full w show ?thesis
    by auto
qed

section \<open>The count of processed messages\<close>

text \<open>
  C6. In every run that starts from the segment as \<open>main\<close> initialises it, \<open>runs_done\<close>
  starts at 0; from one point of the run to the next it grows by exactly one when the
  message received in between was counted, and stays as it is when that message was
  skipped by the \<open>sscanf\<close> guard; so it never decreases; and it never exceeds
  \<open>MAXRUNS\<close>, which is \<open>MSGNR * MAXCLIENTS\<close>.
\<close>

theorem runs_done_counts:
  assumes "watchdog_code pid cn0 es (main_init g) = (x, cs, t)"
  shows "runs_done (snd (hd cs)) = 0 \<and>
         (\<forall>i. Suc i < length cs \<longrightarrow>
            runs_done (snd (cs ! Suc i)) =
              runs_done (snd (cs ! i)) + (if counted (es ! i) then 1 else 0)) \<and>
         sorted (map (\<lambda>c. runs_done (snd c)) cs) \<and>
         (\<forall>c\<in>set cs. runs_done (snd c) \<le> MAXRUNS)"
proof -
  obtain t0 where run: "watchdog_loop es (watchdog_init cn0) (main_init g) = (x, cs, t0)"
    using assms by (rule watchdog_code_loop)
  have ne: "cs \<noteq> []" and hd: "hd cs = (watchdog_init cn0, main_init g)"
    using watchdog_loop_hd [OF run] by simp_all
  have start: "runs_done (snd (hd cs)) = 0"
    using hd by (simp add: main_init_def)
  have step: "runs_done (snd (cs ! Suc i)) =
              runs_done (snd (cs ! i)) + (if counted (es ! i) then 1 else 0)"
    if lt: "Suc i < length cs" for i
  proof -
    obtain t' where "watchdog_body (es ! i) (fst (cs ! i)) (snd (cs ! i)) =
                 Next (fst (cs ! Suc i)) (snd (cs ! Suc i)) t'"
      using watchdog_loop_chain [OF run lt] by blast
    then show ?thesis by (rule watchdog_body_runs_done)
  qed
  have mono: "sorted (map (\<lambda>c. runs_done (snd c)) cs)"
    using step by (simp add: sorted_iff_nth_Suc)
  define I where "I = (\<lambda>(v::watchdog_vars) (g::game). runs_done g < MAXRUNS)"
  have init: "I (watchdog_init cn0) (main_init g)"
    by (simp add: I_def main_init_def MAXRUNS_def MSGNR_def MAXCLIENTS_def)
  have rule: "(\<forall>c\<in>set (butlast cs). I (fst c) (snd c)) \<and>
         (x \<noteq> Loop_done \<longrightarrow> I (fst (last cs)) (snd (last cs))) \<and>
         (x = Loop_done \<longrightarrow>
            (\<exists>e v0 g0 t0. I v0 g0 \<and>
               watchdog_body e v0 g0 = Next (fst (last cs)) (snd (last cs)) t0 \<and>
               \<not> loop_condition (fst (last cs)) (snd (last cs))))"
  proof (rule watchdog_loop_rule [where I = I, OF run init])
    fix e v g0 v' g' t'
    assume "loop_condition v' g'"
    then show "I v' g'" by (simp add: I_def loop_condition_def)
  qed
  have last: "runs_done (snd (last cs)) \<le> MAXRUNS"
  proof (cases "x = Loop_done")
    case True
    then obtain e v0 g0 t1 where "runs_done g0 < MAXRUNS"
      "watchdog_body e v0 g0 = Next (fst (last cs)) (snd (last cs)) t1"
      using rule by (auto simp: I_def)
    then show ?thesis
      using watchdog_body_runs_done [of e v0 g0 "fst (last cs)" "snd (last cs)" t1]
      by (simp split: if_splits)
  next
    case False
    then show ?thesis using rule by (simp add: I_def)
  qed
  have bound: "runs_done (snd c) \<le> MAXRUNS" if mem: "c \<in> set cs" for c
    using last_in_set_cases [OF ne mem] rule last by (auto simp: I_def)
  show ?thesis
    using start step mono bound by blast
qed

theorem runs_done_counts_witness:
  "map (\<lambda>c. runs_done (snd c))
     (fst (snd (watchdog_code 1 0
        [report 2, \<lparr>received = Some Input_failure, lock_ok = True, unlock_ok = True\<rparr>, report 5]
        (main_init (fresh_segment\<lparr>runs_done := 77\<rparr>)))))
   = [0, 1, 1, 2]"
proof -
  let ?es = "[report 2, \<lparr>received = Some Input_failure, lock_ok = True, unlock_ok = True\<rparr>, report 5]"
  let ?r = "watchdog_code 1 0 ?es (main_init (fresh_segment\<lparr>runs_done := 77\<rparr>))"
  have len: "length (fst (snd ?r)) = 4"
    by code_simp
  have c: "counted (?es ! 0)" "\<not> counted (?es ! 1)" "counted (?es ! 2)"
    by (simp_all add: counted_def report_def)
  have "?r = (fst ?r, fst (snd ?r), snd (snd ?r))"
    by simp
  from runs_done_counts [OF this]
  have h: "runs_done (snd (hd (fst (snd ?r)))) = 0"
    and s: "\<And>i. Suc i < length (fst (snd ?r)) \<Longrightarrow>
            runs_done (snd (fst (snd ?r) ! Suc i)) =
              runs_done (snd (fst (snd ?r) ! i)) + (if counted (?es ! i) then 1 else 0)"
    by blast+
  obtain a b c d where cs: "fst (snd ?r) = [a, b, c, d]"
    using len by (auto simp: length_Suc_conv eval_nat_numeral)
  from s [of 0] s [of 1] s [of 2] h c show ?thesis
    unfolding cs by simp
qed

section \<open>The index into the score table\<close>

lemma in_range_never_out_of_bounds:
  assumes "\<forall>e\<in>set es. \<exists>k. received e = Some (Converted k) \<and> 0 \<le> k \<and> k < int MAXCLIENTS"
  shows "fst (watchdog_loop es v g) \<noteq> Undefined_behaviour"
  using assms
proof (induction es arbitrary: v g)
  case Nil
  then show ?case by simp
next
  case (Cons e es)
  show ?case
  proof (cases "watchdog_body e v g")
    case (Rcv_error t1)
    then show ?thesis by simp
  next
    case (Out_of_bounds t1)
    from watchdog_body_Out_of_bounds [OF this] Cons.prems show ?thesis
      by auto
  next
    case (Next v' g' t1)
    have "fst (watchdog_loop es v' g') \<noteq> Undefined_behaviour"
      using Cons.IH Cons.prems by simp
    with Next show ?thesis
      by (cases "watchdog_loop es v' g'") auto
  qed
qed

lemma watchdog_body_bounds:
  assumes "watchdog_body e v g = Next v' g' t"
    and "length (scores v) = MAXCLIENTS" "0 \<le> wd_frontrunner v" "wd_frontrunner v < int MAXCLIENTS"
  shows "length (scores v') = MAXCLIENTS \<and> 0 \<le> wd_frontrunner v' \<and>
         wd_frontrunner v' < int MAXCLIENTS"
proof -
  obtain r where r: "received e = Some r"
    using watchdog_body_received [OF assms(1)] by blast
  show ?thesis
  proof (cases "sscanf_return r < 0")
    case True
    with watchdog_body_skipped [OF assms(1) r] assms(2-) show ?thesis by simp
  next
    case False
    with watchdog_body_counted [OF assms(1) r] assms(2-)
      check_frontrunner_nonneg [of "wd_frontrunner v" "scores v'"]
      check_frontrunner_less [of "wd_frontrunner v" "scores v'"]
    show ?thesis by simp
  qed
qed

lemma watchdog_loop_bounds:
  assumes run: "watchdog_loop es (watchdog_init cn0) g = (x, cs, t)" and mem: "c \<in> set cs"
  shows "length (scores (fst c)) = MAXCLIENTS \<and> 0 \<le> wd_frontrunner (fst c) \<and>
         wd_frontrunner (fst c) < int MAXCLIENTS"
proof -
  define I where "I = (\<lambda>(v::watchdog_vars) (g::game). length (scores v) = MAXCLIENTS \<and> 0 \<le> wd_frontrunner v \<and>
         wd_frontrunner v < int MAXCLIENTS)"
  have init: "I (watchdog_init cn0) g"
    using watchdog_init_inv [of cn0] by (simp add: I_def MAXCLIENTS_def)
  have body: "I v' g'" if inv: "I v g0" and bd: "watchdog_body e v g0 = Next v' g' t'"
    for e v g0 v' g' t'
    using watchdog_body_bounds [OF bd] inv by (simp add: I_def)
  have rule: "(\<forall>c\<in>set (butlast cs). I (fst c) (snd c)) \<and>
         (x \<noteq> Loop_done \<longrightarrow> I (fst (last cs)) (snd (last cs))) \<and>
         (x = Loop_done \<longrightarrow>
            (\<exists>e v0 g0 t0. I v0 g0 \<and>
               watchdog_body e v0 g0 = Next (fst (last cs)) (snd (last cs)) t0 \<and>
               \<not> loop_condition (fst (last cs)) (snd (last cs))))"
  proof (rule watchdog_loop_rule [where I = I, OF run init])
    fix e v g0 v' g' t'
    assume "I v g0" "watchdog_body e v g0 = Next v' g' t'"
    then show "I v' g'" by (rule body)
  qed
  have ne: "cs \<noteq> []"
    using watchdog_loop_hd [OF run] by simp
  have "I (fst (last cs)) (snd (last cs))"
    using rule body by (cases "x = Loop_done") blast+
  then have "I (fst c) (snd c)"
    using last_in_set_cases [OF ne mem] rule by auto
  then show ?thesis by (simp add: I_def)
qed

lemma sscanf_d_Input_failure: "sscanf_d data = Input_failure \<longleftrightarrow> list_all isspace data"
proof (cases "dropWhile isspace data")
  case Nil
  then have "list_all isspace data"
    by (simp add: list_all_iff dropWhile_eq_Nil_conv)
  moreover have "sscanf_d data = Input_failure"
    unfolding sscanf_d_def Nil by simp
  ultimately show ?thesis by simp
next
  case (Cons c cs)
  then have "\<not> list_all isspace data"
    by (auto simp: list_all_iff dropWhile_eq_Nil_conv [symmetric])
  moreover have "sscanf_d data \<noteq> Input_failure"
    unfolding sscanf_d_def Cons by (simp add: Let_def split_def)
  ultimately show ?thesis by simp
qed

lemma watchdog_body_in_range:
  assumes "received e = Some r" "\<not> sscanf_return r < 0"
    and "0 \<le> sscanf_store r (client_nr v)" "sscanf_store r (client_nr v) < int MAXCLIENTS"
  shows "\<exists>v' g' t. watchdog_body e v g = Next v' g' t \<and>
           client_nr v' = sscanf_store r (client_nr v) \<and>
           scores v' = (scores v)[nat (client_nr v') := scores v ! nat (client_nr v') + 1] \<and>
           wd_frontrunner v' = check_frontrunner (scores v') (wd_frontrunner v) \<and>
           g' = g\<lparr>frontrunner := wd_frontrunner v', runs_done := runs_done g + 1\<rparr>"
proof -
  have "\<exists>v' g' t. watchdog_body e v g = Next v' g' t"
    using assms by (simp add: watchdog_body_def Let_def split_def)
  then obtain v' g' t where bd: "watchdog_body e v g = Next v' g' t"
    by blast
  from watchdog_body_counted [OF bd assms(1,2)] bd show ?thesis
    by blast
qed

text \<open>
  C9, as the code has it. \<open>scores[client_nr]++\<close> is done with no check of the index, and
  the guard on \<open>sscanf\<close> tests only for a negative result. So (1) when every received
  message converts to a number in \<open>[0, MAXCLIENTS)\<close>, no run reaches an access outside
  \<open>scores\<close>; (2) the scan keeps \<open>frontrunner\<close> inside the table at every point of
  every run; (3) a message that converts to a number outside the range is used as an
  index all the same; (4) a message that converts to a number \<open>k\<close> inside the range
  adds one to \<open>scores[k]\<close>, sets \<open>client_nr\<close> to \<open>k\<close> and is counted in \<open>runs_done\<close>;
  (5) a matching failure makes \<open>sscanf\<close> return 0, which passes the guard: the message
  is handled exactly like one that converts to the value \<open>client_nr\<close> already holds, so
  the score of that client goes up by one and the message is counted; (6) an input
  failure makes \<open>sscanf\<close> return \<open>EOF\<close>, which is negative: the message is skipped
  and changes nothing; (7) \<open>sscanf\<close> reports an input failure exactly for data that is
  empty or all white space.
\<close>

theorem score_index_unchecked:
  "((\<forall>e\<in>set es. \<exists>k. received e = Some (Converted k) \<and> 0 \<le> k \<and> k < int MAXCLIENTS) \<longrightarrow>
      fst (watchdog_code pid cn0 es g) \<noteq> Undefined_behaviour) \<and>
   (\<forall>c\<in>set (fst (snd (watchdog_code pid cn0 es g))).
      length (scores (fst c)) = MAXCLIENTS \<and> 0 \<le> wd_frontrunner (fst c) \<and>
      wd_frontrunner (fst c) < int MAXCLIENTS) \<and>
   (k < 0 \<or> int MAXCLIENTS \<le> k \<longrightarrow>
      watchdog_body (e\<lparr>received := Some (Converted k)\<rparr>) v sm = Out_of_bounds [Msgrcv True]) \<and>
   (0 \<le> k \<and> k < int MAXCLIENTS \<longrightarrow>
      (\<exists>v' sm' t. watchdog_body (e\<lparr>received := Some (Converted k)\<rparr>) v sm = Next v' sm' t \<and>
         client_nr v' = k \<and>
         scores v' = (scores v)[nat k := scores v ! nat k + 1] \<and>
         wd_frontrunner v' = check_frontrunner (scores v') (wd_frontrunner v) \<and>
         sm' = sm\<lparr>frontrunner := wd_frontrunner v', runs_done := runs_done sm + 1\<rparr>)) \<and>
   sscanf_return Matching_failure = 0 \<and>
   watchdog_body (e\<lparr>received := Some Matching_failure\<rparr>) v sm =
     watchdog_body (e\<lparr>received := Some (Converted (client_nr v))\<rparr>) v sm \<and>
   (0 \<le> client_nr v \<and> client_nr v < int MAXCLIENTS \<longrightarrow>
      (\<exists>v' sm' t. watchdog_body (e\<lparr>received := Some Matching_failure\<rparr>) v sm = Next v' sm' t \<and>
         client_nr v' = client_nr v \<and>
         scores v' = (scores v)[nat (client_nr v) := scores v ! nat (client_nr v) + 1] \<and>
         wd_frontrunner v' = check_frontrunner (scores v') (wd_frontrunner v) \<and>
         sm' = sm\<lparr>frontrunner := wd_frontrunner v', runs_done := runs_done sm + 1\<rparr>)) \<and>
   sscanf_return Input_failure = - 1 \<and>
   watchdog_body (e\<lparr>received := Some Input_failure\<rparr>) v sm =
     Next v sm [Msgrcv True, Perror Err_sscanf] \<and>
   (sscanf_d data = Input_failure \<longleftrightarrow> list_all isspace data)"
proof -
  let ?r = "watchdog_code pid cn0 es g"
  obtain t0 where run: "watchdog_loop es (watchdog_init cn0) g = (fst ?r, fst (snd ?r), t0)"
    using watchdog_code_loop [of pid cn0 es g "fst ?r" "fst (snd ?r)" "snd (snd ?r)"] by auto
  have a: "fst ?r \<noteq> Undefined_behaviour"
    if "\<forall>e\<in>set es. \<exists>k. received e = Some (Converted k) \<and> 0 \<le> k \<and> k < int MAXCLIENTS"
    using in_range_never_out_of_bounds [OF that, of "watchdog_init cn0" g] run by simp
  have b: "\<forall>c\<in>set (fst (snd ?r)).
      length (scores (fst c)) = MAXCLIENTS \<and> 0 \<le> wd_frontrunner (fst c) \<and>
      wd_frontrunner (fst c) < int MAXCLIENTS"
    using watchdog_loop_bounds [OF run] by blast
  have c: "watchdog_body (e\<lparr>received := Some (Converted k)\<rparr>) v sm = Out_of_bounds [Msgrcv True]"
    if "k < 0 \<or> int MAXCLIENTS \<le> k"
    using that by (simp add: watchdog_body_def)
  have inr: "\<exists>v' sm' t. watchdog_body (e\<lparr>received := Some (Converted j)\<rparr>) v sm = Next v' sm' t \<and>
         client_nr v' = j \<and>
         scores v' = (scores v)[nat j := scores v ! nat j + 1] \<and>
         wd_frontrunner v' = check_frontrunner (scores v') (wd_frontrunner v) \<and>
         sm' = sm\<lparr>frontrunner := wd_frontrunner v', runs_done := runs_done sm + 1\<rparr>"
    if "0 \<le> j \<and> j < int MAXCLIENTS" for j
    using watchdog_body_in_range [of "e\<lparr>received := Some (Converted j)\<rparr>" "Converted j" v sm] that
    by auto
  have d: "watchdog_body (e\<lparr>received := Some Matching_failure\<rparr>) v sm =
     watchdog_body (e\<lparr>received := Some (Converted (client_nr v))\<rparr>) v sm"
    by (simp add: watchdog_body_def Let_def)
  have f: "watchdog_body (e\<lparr>received := Some Input_failure\<rparr>) v sm =
     Next v sm [Msgrcv True, Perror Err_sscanf]"
    by (simp add: watchdog_body_def)
  show ?thesis
    using a b c d f inr [of k] inr [of "client_nr v"] sscanf_d_Input_failure [of data]
    by simp
qed

theorem score_index_unchecked_witness:
  "fst (watchdog_code 1 0 [report 3, report 11] fresh_segment) \<noteq> Undefined_behaviour \<and>
   watchdog_body ((report 0)\<lparr>received := Some (Converted 12)\<rparr>) (watchdog_init 0) fresh_segment
     = Out_of_bounds [Msgrcv True] \<and>
   (\<exists>v' sm' t.
      watchdog_body ((report 0)\<lparr>received := Some (sscanf_d ''abc'')\<rparr>) (watchdog_init 4) fresh_segment
        = Next v' sm' t \<and>
      client_nr v' = 4 \<and> scores v' = (replicate 12 0)[4 := 1] \<and> runs_done sm' = 1)"
proof -
  have pre: "\<forall>e\<in>set [report 3, report 11].
     \<exists>k. received e = Some (Converted k) \<and> 0 \<le> k \<and> k < int MAXCLIENTS"
    by (simp add: report_def MAXCLIENTS_def)
  have big: "(12::int) < 0 \<or> int MAXCLIENTS \<le> 12"
    by (simp add: MAXCLIENTS_def)
  have mf: "sscanf_d ''abc'' = Matching_failure"
    by code_simp
  have cn: "client_nr (watchdog_init 4) = 4" "scores (watchdog_init 4) = replicate 12 0"
    "0 \<le> client_nr (watchdog_init 4) \<and> client_nr (watchdog_init 4) < int MAXCLIENTS"
    "runs_done fresh_segment = 0"
    by (simp_all add: watchdog_init_def MAXCLIENTS_def fresh_segment_def)
  from score_index_unchecked [where es = "[report 3, report 11]" and pid = 1 and ?cn0.0 = 0
      and g = fresh_segment and k = 12 and e = "report 0" and v = "watchdog_init 0"
      and sm = fresh_segment]
  have one: "fst (watchdog_code 1 0 [report 3, report 11] fresh_segment) \<noteq> Undefined_behaviour"
    "watchdog_body ((report 0)\<lparr>received := Some (Converted 12)\<rparr>) (watchdog_init 0) fresh_segment
     = Out_of_bounds [Msgrcv True]"
    using pre big by blast+
  from score_index_unchecked [where e = "report 0" and v = "watchdog_init 4" and sm = fresh_segment]
    cn(3)
  obtain v' sm' t where
    "watchdog_body ((report 0)\<lparr>received := Some Matching_failure\<rparr>) (watchdog_init 4) fresh_segment
        = Next v' sm' t"
    "client_nr v' = client_nr (watchdog_init 4)"
    "scores v' = (scores (watchdog_init 4))[nat (client_nr (watchdog_init 4)) :=
                    scores (watchdog_init 4) ! nat (client_nr (watchdog_init 4)) + 1]"
    "sm' = fresh_segment\<lparr>frontrunner := wd_frontrunner v', runs_done := runs_done fresh_segment + 1\<rparr>"
    by blast
  then have "watchdog_body ((report 0)\<lparr>received := Some (sscanf_d ''abc'')\<rparr>) (watchdog_init 4) fresh_segment
        = Next v' sm' t \<and>
      client_nr v' = 4 \<and> scores v' = (replicate 12 0)[4 := 1] \<and> runs_done sm' = 1"
    using mf cn by simp
  with one show ?thesis by blast
qed

text \<open>
  C9 as stated fails: empty data holds no number that could be converted, but \<open>sscanf\<close>
  returns \<open>EOF\<close> for it, not 0, and the watchdog skips the message: the scores and
  \<open>client_nr\<close> stay as they were and \<open>runs_done\<close> is not incremented. The same holds
  for data made of blanks.
\<close>

theorem blank_data_skipped_counterexample:
  "sscanf_d [] = Input_failure \<and>
   sscanf_return (sscanf_d []) = - 1 \<and>
   watchdog_body \<lparr>received = Some (sscanf_d []), lock_ok = True, unlock_ok = True\<rparr>
       (watchdog_init 4) (main_init fresh_segment)
     = Next (watchdog_init 4) (main_init fresh_segment) [Msgrcv True, Perror Err_sscanf] \<and>
   sscanf_d ''  '' = Input_failure"
  by code_simp

section \<open>The clients\<close>

lemma random_sleep_eq:
  "random_sleep srand rand pid st =
     (delay srand rand pid, snd (rand (srand (pid mod 1234))))"
  by (simp add: random_sleep_def delay_def split_def Let_def)

lemma sem_operation_trace:
  "snd (sem_operation op ok) = (if ok then [Semop op True] else [Semop op False, Perror Err_semop])"
  by (simp add: sem_operation_def)

lemma client_iteration_trace:
  "snd (client_iteration srand rand pid nr e s) =
     (if send_ok e
      then [Usleep (delay srand rand pid), Msgsnd nr True] @ snd (sem_operation LOCK (cl_lock_ok e)) @
           [Shm_read Frontrunner] @ snd (sem_operation UNLOCK (cl_unlock_ok e))
      else [Usleep (delay srand rand pid), Msgsnd nr False, Perror (Err_msgsnd nr)])"
  by (simp add: client_iteration_def random_sleep_eq split_def Let_def)

lemma client_loop_Suc:
  "snd (client_loop srand rand pid nr env (Suc k) i s) =
     snd (client_iteration srand rand pid nr (env i) s) @
     snd (client_loop srand rand pid nr env k (Suc i)
            (fst (client_iteration srand rand pid nr (env i) s)))"
  by (simp add: split_def)

lemma main_client_split:
  "main_client srand rand pid i sys st =
     snd (sem_operation LOCK (reg_lock_ok sys)) @ [Shm_write (Clientpids i) (int pid)] @
     snd (sem_operation UNLOCK (reg_unlock_ok sys)) @ after_registration srand rand pid i sys st"
  by (simp add: main_client_def after_registration_def split_def Let_def)

lemma after_registration_eq:
  "after_registration srand rand pid i sys st =
     [Usleep (delay srand rand pid)] @
     snd (client_code srand rand pid i sys (snd (rand (srand (pid mod 1234))))) @
     [Exit EXIT_SUCCESS]"
  by (simp add: after_registration_def random_sleep_eq split_def)

lemma client_code_trace:
  "snd (client_code srand rand pid nr sys st) =
     [Printf (Client_starting nr pid)] @
     (if sigaction_ok sys then [] else [Perror (Err_sigaction nr)]) @
     snd (client_loop srand rand pid nr (iteration sys) MSGNR 0
            \<lparr>generator = st, cl_frontrunner = 0\<rparr>) @
     [Printf (Client_finished nr)]"
  by (simp add: client_code_def split_def)

lemma usleep_sem_operation: "filter is_usleep (snd (sem_operation op ok)) = []"
  by (simp add: sem_operation_trace)

lemma usleep_client_loop:
  "filter is_usleep (snd (client_loop srand rand pid nr env k i s)) =
     replicate k (Usleep (delay srand rand pid))"
proof (induction k arbitrary: i s)
  case 0
  then show ?case by simp
next
  case (Suc k)
  have "filter is_usleep (snd (client_iteration srand rand pid nr (env i) s)) =
          [Usleep (delay srand rand pid)]"
    by (simp add: client_iteration_trace usleep_sem_operation)
  with Suc.IH show ?case
    by (simp only: client_loop_Suc filter_append replicate_Suc append_Cons append_Nil)
qed

text \<open>
  C10. \<open>random_sleep\<close> seeds the generator anew on every call, with \<open>getpid() % 1234\<close>.
  So what it sleeps does not depend on the state in which it finds the generator, it is
  the same number for every call made by one process, it depends on the pid only through
  \<open>pid % 1234\<close>, and all the delays of a client (the one in \<open>main\<close> and the \<open>MSGNR\<close>
  in the loop) are that number.
\<close>

theorem random_sleep_fixed_by_pid:
  "random_sleep srand rand pid st = random_sleep srand rand pid st' \<and>
   fst (random_sleep srand rand pid st) = delay srand rand pid \<and>
   delay srand rand pid = delay srand rand (pid mod 1234) \<and>
   filter is_usleep (main_client srand rand pid i sys st) =
     replicate (Suc MSGNR) (Usleep (delay srand rand pid))"
proof -
  have "filter is_usleep (main_client srand rand pid i sys st) =
     Usleep (delay srand rand pid) # replicate MSGNR (Usleep (delay srand rand pid))"
    by (simp add: main_client_split after_registration_eq client_code_trace
          usleep_sem_operation usleep_client_loop)
  then show ?thesis
    by (simp add: random_sleep_eq delay_def)
qed

lemma sends_append: "sends (t1 @ t2) = sends t1 @ sends t2"
  by (simp add: sends_def)

lemma sends_sem_operation: "sends (snd (sem_operation op ok)) = []"
  by (simp add: sem_operation_trace sends_def)

lemma sends_client_loop:
  "sends (snd (client_loop srand rand pid nr env k i s)) =
     map (\<lambda>j. (nr, send_ok (env j))) [i..<i + k]"
proof (induction k arbitrary: i s)
  case 0
  then show ?case by (simp add: sends_def)
next
  case (Suc k)
  have it: "sends (snd (client_iteration srand rand pid nr (env i) s)) = [(nr, send_ok (env i))]"
    by (simp add: client_iteration_trace sends_def sem_operation_trace)
  have "[i..<i + Suc k] = i # [Suc i..<Suc i + k]"
    by (simp add: upt_rec)
  with Suc.IH it show ?case
    by (simp only: client_loop_Suc sends_append list.map append_Cons append_Nil)
qed

lemma shm_after_append: "shm_after (t1 @ t2) g = shm_after t2 (shm_after t1 g)"
  by (simp add: shm_after_def)

lemma shm_after_no_write: "filter is_shm_write t = [] \<Longrightarrow> shm_after t g = g"
proof (induction t)
  case Nil
  then show ?case by (simp add: shm_after_def)
next
  case (Cons a t)
  then have "\<not> is_shm_write a" "filter is_shm_write t = []"
    by (auto split: if_splits)
  with Cons.IH show ?case
    by (cases a) (simp_all add: shm_after_def)
qed

lemma writes_sem_operation: "filter is_shm_write (snd (sem_operation op ok)) = []"
  by (simp add: sem_operation_trace)

lemma writes_client_loop:
  "filter is_shm_write (snd (client_loop srand rand pid nr env k i s)) = []"
proof (induction k arbitrary: i s)
  case 0
  then show ?case by simp
next
  case (Suc k)
  have "filter is_shm_write (snd (client_iteration srand rand pid nr (env i) s)) = []"
    by (simp add: client_iteration_trace writes_sem_operation)
  with Suc.IH show ?case
    by (simp only: client_loop_Suc filter_append append_Nil)
qed

lemma writes_client_code:
  "filter is_shm_write (snd (client_code srand rand pid nr sys st)) = []"
  by (simp add: client_code_trace writes_client_loop)

lemma writes_after_registration:
  "filter is_shm_write (after_registration srand rand pid i sys st) = []"
  by (simp add: after_registration_eq writes_client_code)

lemma exit_client_loop:
  "Exit c \<notin> set (snd (client_loop srand rand pid nr env k i s))"
proof (induction k arbitrary: i s)
  case 0
  then show ?case by simp
next
  case (Suc k)
  have "Exit c \<notin> set (snd (client_iteration srand rand pid nr (env i) s))"
    by (simp add: client_iteration_trace sem_operation_trace)
  with Suc.IH show ?case
    by (simp only: client_loop_Suc set_append Un_iff) simp
qed

text \<open>
  C7. The sending loop of a client makes exactly \<open>MSGNR\<close> calls of \<open>msgsnd\<close>, one per
  iteration, whichever of them fail. An iteration whose \<open>msgsnd\<close> fails logs the failure
  and does nothing else: no second \<open>msgsnd\<close>, no access to the shared segment, the
  variables unchanged but for the generator. The client never exits with
  \<open>EXIT_FAILURE\<close>, its last action is \<open>exit(EXIT_SUCCESS)\<close>, and \<open>client_code\<close>
  leaves every shared segment as it was. (The loop is taken as it runs when \<open>SIGUSR1\<close>
  does not end the process first.)
\<close>

theorem failed_send_dropped:
  "sends (snd (client_code srand rand pid nr sys st)) =
     map (\<lambda>j. (nr, send_ok (iteration sys j))) [0..<MSGNR] \<and>
   client_iteration srand rand pid nr (e\<lparr>send_ok := False\<rparr>) s =
     (s\<lparr>generator := snd (random_sleep srand rand pid (generator s))\<rparr>,
      [Usleep (delay srand rand pid), Msgsnd nr False, Perror (Err_msgsnd nr)]) \<and>
   Exit EXIT_FAILURE \<notin> set (main_client srand rand pid nr sys st) \<and>
   last (main_client srand rand pid nr sys st) = Exit EXIT_SUCCESS \<and>
   shm_after (snd (client_code srand rand pid nr sys st)) g = g"
proof -
  have a: "sends (snd (client_code srand rand pid nr sys st)) =
     map (\<lambda>j. (nr, send_ok (iteration sys j))) [0..<MSGNR]"
    using sends_client_loop [of srand rand pid nr "iteration sys" MSGNR 0]
    by (simp add: client_code_trace sends_append) (simp add: sends_def)
  have b: "client_iteration srand rand pid nr (e\<lparr>send_ok := False\<rparr>) s =
     (s\<lparr>generator := snd (random_sleep srand rand pid (generator s))\<rparr>,
      [Usleep (delay srand rand pid), Msgsnd nr False, Perror (Err_msgsnd nr)])"
    by (simp add: client_iteration_def random_sleep_eq)
  have c: "Exit EXIT_FAILURE \<notin> set (main_client srand rand pid nr sys st)"
    by (simp add: main_client_split after_registration_eq client_code_trace
          sem_operation_trace exit_client_loop EXIT_FAILURE_def EXIT_SUCCESS_def)
  have d: "last (main_client srand rand pid nr sys st) = Exit EXIT_SUCCESS"
    by (simp add: main_client_split after_registration_eq)
  have e: "shm_after (snd (client_code srand rand pid nr sys st)) g = g"
    by (rule shm_after_no_write) (rule writes_client_code)
  show ?thesis
    using a b c d e by simp
qed

text \<open>
  C8. A client writes the shared segment once, storing its pid in its own slot under
  \<open>main\<close>; everything it does after that contains no write and leaves every segment
  as it was, so in all a client changes its own slot of \<open>clientpids\<close> and nothing else:
  not \<open>frontrunner\<close>, not \<open>runs_done\<close>, not another slot. After a successful
  \<open>msgsnd\<close> the iteration reads \<open>frontrunner\<close> between its two \<open>semop\<close> calls and
  does nothing more.
\<close>

theorem client_writes_only_own_pid:
  "main_client srand rand pid i sys st =
     snd (sem_operation LOCK (reg_lock_ok sys)) @ [Shm_write (Clientpids i) (int pid)] @
     snd (sem_operation UNLOCK (reg_unlock_ok sys)) @ after_registration srand rand pid i sys st \<and>
   filter is_shm_write (after_registration srand rand pid i sys st) = [] \<and>
   shm_after (after_registration srand rand pid i sys st) g = g \<and>
   shm_after (main_client srand rand pid i sys st) g =
     g\<lparr>clientpids := (clientpids g)[i := int pid]\<rparr> \<and>
   snd (client_iteration srand rand pid i (e\<lparr>send_ok := True\<rparr>) s) =
     [Usleep (delay srand rand pid), Msgsnd i True] @ snd (sem_operation LOCK (cl_lock_ok e)) @
     [Shm_read Frontrunner] @ snd (sem_operation UNLOCK (cl_unlock_ok e))"
proof -
  have rest: "shm_after (after_registration srand rand pid i sys st) g' = g'" for g'
    by (rule shm_after_no_write) (rule writes_after_registration)
  have sem: "shm_after (snd (sem_operation op ok)) g' = g'" for op ok g'
    by (rule shm_after_no_write) (rule writes_sem_operation)
  have reg: "shm_after [Shm_write (Clientpids i) (int pid)] g =
      g\<lparr>clientpids := (clientpids g)[i := int pid]\<rparr>"
    by (simp add: shm_after_def)
  have whole: "shm_after (main_client srand rand pid i sys st) g =
     g\<lparr>clientpids := (clientpids g)[i := int pid]\<rparr>"
    by (simp only: main_client_split shm_after_append sem reg rest)
  show ?thesis
    using main_client_split [of srand rand pid i sys st] writes_after_registration [of srand rand pid i sys st]
      rest [of g] whole
    by (simp add: client_iteration_trace)
qed

section \<open>Failing semaphore operations\<close>

lemma other_actions_append: "other_actions (t1 @ t2) = other_actions t1 @ other_actions t2"
  by (simp add: other_actions_def)

lemma other_actions_Cons:
  "other_actions (a # t) = (if semop_related a then other_actions t else a # other_actions t)"
  by (simp add: other_actions_def)

lemma other_actions_sem_operation: "other_actions (snd (sem_operation op ok)) = []"
  by (simp add: sem_operation_trace other_actions_def)

lemma watchdog_body_semops:
  "(\<exists>t t'. watchdog_body e v g = Rcv_error t \<and>
       watchdog_body (semops_succeed e) v g = Rcv_error t' \<and>
       other_actions t = other_actions t') \<or>
   (\<exists>t t'. watchdog_body e v g = Out_of_bounds t \<and>
       watchdog_body (semops_succeed e) v g = Out_of_bounds t' \<and>
       other_actions t = other_actions t') \<or>
   (\<exists>v' g' t t'. watchdog_body e v g = Next v' g' t \<and>
       watchdog_body (semops_succeed e) v g = Next v' g' t' \<and>
       other_actions t = other_actions t')"
proof (cases "received e")
  case None
  then show ?thesis
    by (simp add: watchdog_body_def semops_succeed_def)
next
  case (Some r)
  show ?thesis
  proof (cases "sscanf_return r < 0")
    case True
    with Some show ?thesis
      by (simp add: watchdog_body_def semops_succeed_def)
  next
    case False
    show ?thesis
    proof (cases "sscanf_store r (client_nr v) < 0 \<or> int MAXCLIENTS \<le> sscanf_store r (client_nr v)")
      case True
      with Some False show ?thesis
        by (simp add: watchdog_body_def semops_succeed_def)
    next
      case inb: False
      with Some False show ?thesis
        by (simp add: watchdog_body_def semops_succeed_def Let_def split_def
              other_actions_append other_actions_Cons other_actions_sem_operation)
    qed
  qed
qed

lemma watchdog_loop_semops:
  "fst (watchdog_loop es v g) = fst (watchdog_loop (map semops_succeed es) v g) \<and>
   fst (snd (watchdog_loop es v g)) = fst (snd (watchdog_loop (map semops_succeed es) v g)) \<and>
   other_actions (snd (snd (watchdog_loop es v g))) =
     other_actions (snd (snd (watchdog_loop (map semops_succeed es) v g)))"
proof (induction es arbitrary: v g)
  case Nil
  show ?case by simp
next
  case (Cons e es)
  from watchdog_body_semops [of e v g] show ?case
  proof (elim disjE exE conjE)
    fix t t'
    assume "watchdog_body e v g = Rcv_error t"
      "watchdog_body (semops_succeed e) v g = Rcv_error t'"
      "other_actions t = other_actions t'"
    then show ?thesis by simp
  next
    fix t t'
    assume "watchdog_body e v g = Out_of_bounds t"
      "watchdog_body (semops_succeed e) v g = Out_of_bounds t'"
      "other_actions t = other_actions t'"
    then show ?thesis by simp
  next
    fix v' g' t t'
    assume b: "watchdog_body e v g = Next v' g' t"
      "watchdog_body (semops_succeed e) v g = Next v' g' t'"
      "other_actions t = other_actions t'"
    show ?thesis
    proof (cases "loop_condition v' g'")
      case True
      with b Cons.IH [of v' g'] show ?thesis
        by (simp add: split_def other_actions_append)
    next
      case False
      with b show ?thesis
        by (simp add: other_actions_append)
    qed
  qed
qed

lemma watchdog_code_semops:
  "fst (watchdog_code pid cn0 es g) = fst (watchdog_code pid cn0 (map semops_succeed es) g) \<and>
   fst (snd (watchdog_code pid cn0 es g)) =
     fst (snd (watchdog_code pid cn0 (map semops_succeed es) g)) \<and>
   other_actions (snd (snd (watchdog_code pid cn0 es g))) =
     other_actions (snd (snd (watchdog_code pid cn0 (map semops_succeed es) g)))"
  using watchdog_loop_semops [of es "watchdog_init cn0" g]
  by (simp add: watchdog_code_def split_def other_actions_append other_actions_Cons)

lemma client_iteration_semops:
  "fst (client_iteration srand rand pid nr (e\<lparr>cl_lock_ok := a, cl_unlock_ok := b\<rparr>) s) =
     fst (client_iteration srand rand pid nr e s) \<and>
   other_actions (snd (client_iteration srand rand pid nr (e\<lparr>cl_lock_ok := a, cl_unlock_ok := b\<rparr>) s)) =
     other_actions (snd (client_iteration srand rand pid nr e s))"
  by (simp add: client_iteration_def split_def Let_def other_actions_append
        other_actions_Cons other_actions_sem_operation)

lemma client_loop_semops:
  "other_actions (snd (client_loop srand rand pid nr
       (\<lambda>j. (env j)\<lparr>cl_lock_ok := True, cl_unlock_ok := True\<rparr>) k i s)) =
   other_actions (snd (client_loop srand rand pid nr env k i s))"
proof (induction k arbitrary: i s)
  case 0
  show ?case by simp
next
  case (Suc k)
  show ?case
    using client_iteration_semops [where e = "env i" and a = True and b = True and s = s
        and srand = srand and rand = rand and pid = pid and nr = nr] Suc.IH
    by (simp only: client_loop_Suc other_actions_append)
qed

text \<open>
  C2, as the code has it. When \<open>semop\<close> fails, \<open>sem_operation\<close> reports the failure
  with \<open>perror\<close> and returns \<open>-1\<close> to its caller (1 when it succeeds); it does not
  exit, and no caller looks at the result. So the watchdog ends the same way, passes
  through the same values of its variables and of the shared segment, and performs the
  same other actions whether its \<open>semop\<close> calls fail or succeed, and so does a client.
\<close>

theorem semop_failure_reported_not_fatal:
  "sem_operation op False = (- 1, [Semop op False, Perror Err_semop]) \<and>
   sem_operation op True = (1, [Semop op True]) \<and>
   fst (watchdog_code wpid cn0 es g) = fst (watchdog_code wpid cn0 (map semops_succeed es) g) \<and>
   fst (snd (watchdog_code wpid cn0 es g)) =
     fst (snd (watchdog_code wpid cn0 (map semops_succeed es) g)) \<and>
   other_actions (snd (snd (watchdog_code wpid cn0 es g))) =
     other_actions (snd (snd (watchdog_code wpid cn0 (map semops_succeed es) g))) \<and>
   other_actions (main_client srand rand pid i sys st) =
     other_actions (main_client srand rand pid i (sys_semops_succeed sys) st)"
proof -
  have cl: "other_actions (main_client srand rand pid i sys st) =
     other_actions (main_client srand rand pid i (sys_semops_succeed sys) st)"
    using client_loop_semops [of srand rand pid i "iteration sys" MSGNR 0]
    by (simp add: main_client_split after_registration_eq client_code_trace
          other_actions_append other_actions_Cons other_actions_sem_operation
          sys_semops_succeed_def)
  show ?thesis
    using watchdog_code_semops [of wpid cn0 es g] cl
    by (simp add: sem_operation_def)
qed

text \<open>
  C2 as stated fails: the watchdog receives the message of client 0 and its \<open>LOCK\<close>
  fails. The failure is reported, and the watchdog writes the shared segment, unlocks
  and goes on to the loop condition.
\<close>

theorem failed_semop_not_fatal_counterexample:
  "snd (snd (watchdog_code 1 0 [\<lparr>received = Some (Converted 0), lock_ok = False, unlock_ok = True\<rparr>]
              (main_init fresh_segment))) =
     [Printf (Watchdog_starting 1), Msgrcv True, Semop LOCK False, Perror Err_semop,
      Shm_write Frontrunner 0, Shm_read Runs_done, Shm_write Runs_done 1, Semop UNLOCK True,
      Shm_read Runs_done] \<and>
   \<not> fatal_semop (snd (snd (watchdog_code 1 0
        [\<lparr>received = Some (Converted 0), lock_ok = False, unlock_ok = True\<rparr>]
        (main_init fresh_segment))))"
  by code_simp

section \<open>Lock discipline\<close>

lemma guarded_append:
  "guarded need h (t1 @ t2) \<longleftrightarrow>
     guarded need h t1 \<and> guarded need (foldl holds_after h t1) t2"
  by (induction t1 arbitrary: h) auto

lemma guarded_no_need: "filter need t = [] \<Longrightarrow> guarded need h t"
  by (induction t arbitrary: h) (auto split: if_splits)

lemma guarded_appendI:
  "guarded need h t1 \<Longrightarrow> (\<And>h'. guarded need h' t2) \<Longrightarrow> guarded need h (t1 @ t2)"
  by (simp add: guarded_append)

lemma watchdog_body_guarded:
  assumes "watchdog_body e v g = Next v' g' t" "lock_ok e"
  shows "guarded is_shm_write h t"
proof -
  obtain r where r: "received e = Some r"
    using watchdog_body_received [OF assms(1)] by blast
  show ?thesis
  proof (cases "sscanf_return r < 0")
    case True
    with watchdog_body_skipped [OF assms(1) r] show ?thesis by simp
  next
    case False
    let ?cn = "sscanf_store r (client_nr v)"
    have inb: "\<not> (?cn < 0 \<or> int MAXCLIENTS \<le> ?cn)"
      using assms r False by (auto simp: watchdog_body_def)
    show ?thesis
      using assms r False inb
      by (auto simp: watchdog_body_def Let_def split_def sem_operation_def split: if_splits)
  qed
qed

lemma watchdog_body_error_traces:
  "watchdog_body e v g = Rcv_error t \<Longrightarrow> filter is_shm_write t = []"
  "watchdog_body e v g = Out_of_bounds t \<Longrightarrow> filter is_shm_write t = []"
  by (auto simp: watchdog_body_def Let_def split_def split: option.splits if_splits)

lemma watchdog_loop_guarded:
  assumes "watchdog_loop es v g = (x, cs, t)" "\<forall>e\<in>set es. lock_ok e"
  shows "guarded is_shm_write h t"
  using assms
proof (induction es arbitrary: v g x cs t h)
  case Nil
  then show ?case by auto
next
  case (Cons e es)
  show ?case
  proof (cases "watchdog_body e v g")
    case (Rcv_error t1)
    with Cons.prems watchdog_body_error_traces(1) [OF Rcv_error] show ?thesis
      by (auto intro: guarded_no_need)
  next
    case (Out_of_bounds t1)
    with Cons.prems watchdog_body_error_traces(2) [OF Out_of_bounds] show ?thesis
      by (auto intro: guarded_no_need)
  next
    case (Next v' g' t1)
    have t1: "guarded is_shm_write h t1"
      using Next Cons.prems(2) by (simp add: watchdog_body_guarded)
    have lc: "guarded is_shm_write h' (loop_condition_trace v')" for h'
      by (simp add: loop_condition_trace_def)
    show ?thesis
    proof (cases "loop_condition v' g'")
      case False
      then have "t = t1 @ loop_condition_trace v'"
        using Next Cons.prems(1) by auto
      with t1 lc show ?thesis by (simp add: guarded_appendI)
    next
      case True
      obtain x' cs' t' where run': "watchdog_loop es v' g' = (x', cs', t')"
        by (cases "watchdog_loop es v' g'")
      have eq: "t = t1 @ loop_condition_trace v' @ t'"
        using Cons.prems(1) Next True run' by auto
      have "guarded is_shm_write h' t'" for h'
        using Cons.IH [OF run'] Cons.prems(2) by simp
      with t1 lc show ?thesis
        unfolding eq by (intro guarded_appendI)
    qed
  qed
qed

lemma broadcast_no_write: "filter is_shm_write (broadcast g) = []"
  by (simp add: broadcast_def filter_concat comp_def)

lemma watchdog_code_guarded:
  assumes "\<forall>e\<in>set es. lock_ok e"
  shows "guarded is_shm_write False (snd (snd (watchdog_code pid cn0 es g)))"
proof -
  obtain x cs t where r: "watchdog_code pid cn0 es g = (x, cs, t)"
    by (cases "watchdog_code pid cn0 es g")
  obtain t0 where run: "watchdog_loop es (watchdog_init cn0) g = (x, cs, t0)"
    and t: "t = (if x = Loop_done
              then [Printf (Watchdog_starting pid)] @ t0 @
                   [Printf (Watchdog_finished (winner (fst (last cs))))] @
                   broadcast (snd (last cs)) @ [Exit EXIT_SUCCESS]
              else [Printf (Watchdog_starting pid)] @ t0)"
    using r by (rule watchdog_code_loop)
  have t0: "guarded is_shm_write h t0" for h
    using watchdog_loop_guarded [OF run assms] .
  have tail: "guarded is_shm_write h ([Printf (Watchdog_finished (winner (fst (last cs))))] @
                   broadcast (snd (last cs)) @ [Exit EXIT_SUCCESS])" for h
    by (rule guarded_no_need) (simp add: broadcast_no_write)
  have "guarded is_shm_write False t"
    unfolding t using t0 tail by (auto simp: guarded_append simp del: append.simps)
  with r show ?thesis by simp
qed

lemma client_iteration_guarded:
  assumes "send_ok e \<longrightarrow> cl_lock_ok e"
  shows "guarded is_shm_access h (snd (client_iteration srand rand pid nr e s))"
  using assms by (simp add: client_iteration_trace sem_operation_trace)

lemma client_loop_guarded:
  assumes "\<forall>j<i + k. cl_lock_ok (env j)"
  shows "guarded is_shm_access h (snd (client_loop srand rand pid nr env k i s))"
  using assms
proof (induction k arbitrary: i s h)
  case 0
  then show ?case by simp
next
  case (Suc k)
  have "guarded is_shm_access h (snd (client_iteration srand rand pid nr (env i) s))"
    using Suc.prems by (simp add: client_iteration_guarded)
  moreover have "guarded is_shm_access h'
      (snd (client_loop srand rand pid nr env k (Suc i)
            (fst (client_iteration srand rand pid nr (env i) s))))" for h'
    using Suc.IH [of "Suc i"] Suc.prems by simp
  ultimately show ?case
    by (simp only: client_loop_Suc guarded_appendI)
qed

lemma main_client_guarded:
  assumes "reg_lock_ok sys" "\<forall>j<MSGNR. cl_lock_ok (iteration sys j)"
  shows "guarded is_shm_access False (main_client srand rand pid i sys st)"
proof -
  have loop: "guarded is_shm_access h
      (snd (client_loop srand rand pid i (iteration sys) MSGNR 0 s))" for h s
    using client_loop_guarded [of 0 MSGNR "iteration sys"] assms(2) by simp
  have code: "guarded is_shm_access h (snd (client_code srand rand pid i sys s))" for h s
    using loop by (simp add: client_code_trace guarded_append)
  have rest: "guarded is_shm_access h (after_registration srand rand pid i sys st)" for h
    using code by (simp add: after_registration_eq guarded_append)
  show ?thesis
    using assms(1) rest
    by (simp add: main_client_split sem_operation_trace guarded_append)
qed











lemma loop_condition_trace_plain:
  "filter is_semop (loop_condition_trace v) = []"
  "filter is_shm_write (loop_condition_trace v) = []"
  by (simp_all add: loop_condition_trace_def)











section \<open>The bound on the number of messages\<close>

lemma tally_inv_below_bound:
  assumes "tally_inv v g"
  shows "runs_done g \<le> int MAXCLIENTS * (int MSGNR - 1)"
proof -
  have "(\<Sum>s\<leftarrow>scores v. s) \<le> (\<Sum>s\<leftarrow>scores v. int MSGNR - 1)"
    using assms by (intro sum_list_mono) (auto simp: tally_inv_def list_all_iff)
  also have "\<dots> = int MAXCLIENTS * (int MSGNR - 1)"
    using assms by (simp add: tally_inv_def sum_list_triv)
  finally show ?thesis
    using assms by (simp add: tally_inv_def)
qed

lemma sum_list_bump:
  "k < length xs \<Longrightarrow> sum_list (xs[k := xs ! k + 1]) = sum_list xs + (1::int)"
  by (induction xs arbitrary: k) (auto split: nat.splits)

lemma tally_inv_body:
  assumes inv: "tally_inv v g" and bd: "watchdog_body e v g = Next v' g' t"
    and w: "winner v' = - 1"
  shows "tally_inv v' g'"
proof -
  obtain r where r: "received e = Some r"
    using watchdog_body_received [OF bd] by blast
  show ?thesis
  proof (cases "sscanf_return r < 0")
    case True
    with watchdog_body_skipped [OF bd r] inv show ?thesis by simp
  next
    case False
    note c = watchdog_body_counted [OF bd r False]
    let ?cn = "nat (client_nr v')"
    have "0 \<le> client_nr v'" "client_nr v' < int MAXCLIENTS"
      using c by blast+
    then have cn: "?cn < MAXCLIENTS" "int ?cn = client_nr v'"
      by linarith+
    have len: "length (scores v) = MAXCLIENTS"
      and old: "\<And>j. j < MAXCLIENTS \<Longrightarrow> 0 \<le> scores v ! j \<and> scores v ! j < int MSGNR"
      using inv by (simp_all add: tally_inv_def list_all_length)
    have sc: "scores v' = (scores v)[?cn := scores v ! ?cn + 1]"
      using c by simp
    have len': "length (scores v') = MAXCLIENTS"
      using sc len by simp
    have nth': "scores v' ! j = (if j = ?cn then scores v ! ?cn + 1 else scores v ! j)"
      if "j < MAXCLIENTS" for j
      using sc len that by (simp add: nth_list_update)
    have fr: "0 \<le> wd_frontrunner v'"
      using c inv check_frontrunner_nonneg [of "wd_frontrunner v" "scores v'"]
      by (simp add: tally_inv_def)
    have notyet: "\<not> reached_target v'"
      using c w fr by (auto split: if_splits)
    have below: "scores v ! ?cn + 1 < int MSGNR"
    proof (rule ccontr)
      assume "\<not> scores v ! ?cn + 1 < int MSGNR"
      then have top: "scores v' ! ?cn = int MSGNR"
        using old [OF cn(1)] nth' [OF cn(1)] by simp
      then have pos: "0 < scores v' ! ?cn"
        by (simp add: MSGNR_def)
      obtain k where k: "k < MAXCLIENTS" "wd_frontrunner v' = int k"
        "\<forall>j<MAXCLIENTS. scores v' ! j \<le> scores v' ! k"
        using check_frontrunner_least_max [OF len' cn(1) pos, of "wd_frontrunner v"] c
        by auto
      have "scores v' ! ?cn \<le> scores v' ! k"
        using k(3) cn(1) by blast
      then have "k = ?cn"
        using top nth' [OF k(1)] old [OF k(1)] by (auto split: if_splits)
      then have "reached_target v'"
        using k(2) top cn(2) by (simp add: reached_target_def)
      with notyet show False by simp
    qed
    have all': "list_all (\<lambda>s. 0 \<le> s \<and> s < int MSGNR) (scores v')"
      unfolding list_all_length len'
      using nth' old below cn(1) by auto
    have "sum_list (scores v') = sum_list (scores v) + 1"
      using sc len cn(1) by (simp add: sum_list_bump)
    then have sum': "sum_list (scores v') = runs_done g'"
      using c inv by (simp add: tally_inv_def)
    show ?thesis
      using len' all' sum' fr w by (simp add: tally_inv_def)
  qed
qed

text \<open>
  Started by \<open>main\<close> with \<open>runs_done = 0\<close>, the loop is never left because of the bound:
  \<open>MAXCLIENTS\<close> scores below \<open>MSGNR\<close> add up to less than \<open>MAXRUNS\<close>, so whenever the
  loop is left through its condition a winner is recorded and \<open>runs_done\<close> is still
  below \<open>MAXRUNS\<close>.
\<close>

lemma no_exhaustion_from_zero:
  assumes "watchdog_code pid cn0 es (main_init g) = (x, cs, t)" and "x = Loop_done"
  shows "winner (fst (last cs)) \<noteq> - 1 \<and> runs_done (snd (last cs)) < MAXRUNS"
proof -
  obtain t0 where run: "watchdog_loop es (watchdog_init cn0) (main_init g) = (x, cs, t0)"
    using assms(1) by (rule watchdog_code_loop)
  have init: "tally_inv (watchdog_init cn0) (main_init g)"
    by (simp add: tally_inv_def watchdog_init_def main_init_def MSGNR_def list_all_iff
          sum_list_replicate)
  have rule: "(\<forall>c\<in>set (butlast cs). tally_inv (fst c) (snd c)) \<and>
         (x \<noteq> Loop_done \<longrightarrow> tally_inv (fst (last cs)) (snd (last cs))) \<and>
         (x = Loop_done \<longrightarrow>
            (\<exists>e v0 g0 t0. tally_inv v0 g0 \<and>
               watchdog_body e v0 g0 = Next (fst (last cs)) (snd (last cs)) t0 \<and>
               \<not> loop_condition (fst (last cs)) (snd (last cs))))"
  proof (rule watchdog_loop_rule [where I = tally_inv, OF run init])
    fix e v g0 v' g' t'
    assume "tally_inv v g0" "watchdog_body e v g0 = Next v' g' t'" "loop_condition v' g'"
    then show "tally_inv v' g'"
      by (simp add: tally_inv_body loop_condition_def)
  qed
  then obtain e v0 g0 t1 where last: "tally_inv v0 g0"
    "watchdog_body e v0 g0 = Next (fst (last cs)) (snd (last cs)) t1"
    "\<not> loop_condition (fst (last cs)) (snd (last cs))"
    using assms(2) by blast
  have w: "winner (fst (last cs)) \<noteq> - 1"
  proof
    assume "winner (fst (last cs)) = - 1"
    then have "tally_inv (fst (last cs)) (snd (last cs))"
      using last(1,2) by (simp add: tally_inv_body)
    then have "runs_done (snd (last cs)) \<le> int MAXCLIENTS * (int MSGNR - 1)"
      by (rule tally_inv_below_bound)
    with \<open>winner (fst (last cs)) = - 1\<close> last(3) show False
      by (simp add: loop_condition_def MAXRUNS_def MSGNR_def MAXCLIENTS_def)
  qed
  have "runs_done g0 \<le> int MAXCLIENTS * (int MSGNR - 1)"
    using last(1) by (rule tally_inv_below_bound)
  then have "runs_done (snd (last cs)) < MAXRUNS"
    using watchdog_body_runs_done [OF last(2)]
    by (simp add: MAXRUNS_def MSGNR_def MAXCLIENTS_def split: if_splits)
  with w show ?thesis by simp
qed

end
